theory Spec2Isabelle
  imports Main "HOL-Library.Log_Nat" "HOL-Library.Multiset"
begin

section \<open>Python values the program works on\<close>

text \<open>
  The program is \<^verbatim>\<open>stock_price_predictor.py\<close>. Each exception class the code can
  meet is a constructor; a function that may raise returns a sum with the exception on
  the left.
\<close>

datatype exn =
  FileNotFoundError | PermissionError | IndexError | KeyError | ValueError | TypeError
  | OverflowError | AttributeError | OSError

subsection \<open>Calendar dates (\<^verbatim>\<open>datetime.date\<close>)\<close>

datatype date = Date (year: nat) (month: nat) (day: nat)

definition is_leap :: "nat \<Rightarrow> bool" where
  "is_leap y = (y mod 4 = 0 \<and> (y mod 100 \<noteq> 0 \<or> y mod 400 = 0))"

definition days_in_month :: "nat \<Rightarrow> nat \<Rightarrow> nat" where
  "days_in_month y m =
     (if m = 2 then (if is_leap y then 29 else 28)
      else if m = 4 \<or> m = 6 \<or> m = 9 \<or> m = 11 then 30 else 31)"

text \<open>\<^verbatim>\<open>date.min\<close> is 0001-01-01 and \<^verbatim>\<open>date.max\<close> is 9999-12-31.\<close>

definition valid_date :: "date \<Rightarrow> bool" where
  "valid_date d =
     (1 \<le> year d \<and> year d \<le> 9999 \<and> 1 \<le> month d \<and> month d \<le> 12
      \<and> 1 \<le> day d \<and> day d \<le> days_in_month (year d) (month d))"

text \<open>
  \<^verbatim>\<open>d + timedelta(days=1)\<close>: the next calendar day, or \<^verbatim>\<open>OverflowError\<close>
  (``date value out of range'') after 9999-12-31.
\<close>

definition add_one_day :: "date \<Rightarrow> exn + date" where
  "add_one_day d =
     (if day d < days_in_month (year d) (month d) then Inr (Date (year d) (month d) (day d + 1))
      else if month d < 12 then Inr (Date (year d) (month d + 1) 1)
      else if year d < 9999 then Inr (Date (year d + 1) 1 1)
      else Inl OverflowError)"

text \<open>
  \<^verbatim>\<open>date.toordinal()\<close>: the number of the day, 0001-01-01 being day 1. It is what
  ``one day later'' means in the statements below; \<open>add_one_day\<close> does not use it.
\<close>

definition days_before_year :: "nat \<Rightarrow> nat" where
  "days_before_year y = (let z = y - 1 in z * 365 + z div 4 - z div 100 + z div 400)"

fun days_before_month :: "nat \<Rightarrow> nat \<Rightarrow> nat" where
  "days_before_month y 0 = 0"
| "days_before_month y (Suc 0) = 0"
| "days_before_month y (Suc (Suc m)) = days_before_month y (Suc m) + days_in_month y (Suc m)"

definition toordinal :: "date \<Rightarrow> nat" where
  "toordinal d = days_before_year (year d) + days_before_month (year d) (month d) + day d"

subsection \<open>Floats (\<^verbatim>\<open>float\<close>, IEEE 754 binary64)\<close>

text \<open>
  A finite float other than \<^verbatim>\<open>-0.0\<close> is the rational number it denotes, \<open>Fin 0\<close> being
  \<^verbatim>\<open>0.0\<close>; \<open>NZero\<close> is \<^verbatim>\<open>-0.0\<close>. \<open>fl\<close> rounds a rational to the nearest double
  (ties to even), with gradual underflow below \<open>2\<^sup>-\<^sup>1\<^sup>0\<^sup>2\<^sup>2\<close> and overflow to an infinity
  from \<open>2\<^sup>1\<^sup>0\<^sup>2\<^sup>4\<close> on; a negative number that rounds to zero gives \<^verbatim>\<open>-0.0\<close>.
\<close>

datatype pyfloat = Fin rat | NZero | PInf | NInf | NaN

definition pow2 :: "int \<Rightarrow> rat" where
  "pow2 k = (if 0 \<le> k then 2 ^ nat k else 1 / 2 ^ nat (- k))"

text \<open>\<open>flog2 x\<close> is \<open>\<lfloor>log\<^sub>2 x\<rfloor>\<close> for \<open>0 < x\<close>.\<close>

definition flog2 :: "rat \<Rightarrow> int" where
  "flog2 x = (if 1 \<le> x then bitlen \<lfloor>x\<rfloor> - 1 else - bitlen (\<lceil>1 / x\<rceil> - 1))"

text \<open>Rounding to the nearest integer, a tie going to the even neighbour.\<close>

definition rhe :: "rat \<Rightarrow> int" where
  "rhe x = (let f = \<lfloor>x\<rfloor>; d = x - of_int f in
     if d < 1 / 2 then f else if 1 / 2 < d then f + 1 else if even f then f else f + 1)"

text \<open>The exponent of the unit in the last place of the doubles around \<open>x\<close>.\<close>

definition ulp_exp :: "rat \<Rightarrow> int" where
  "ulp_exp x = max (flog2 \<bar>x\<bar> - 52) (- 1074)"

definition rnd :: "rat \<Rightarrow> rat" where
  "rnd x = (if x = 0 then 0 else of_int (rhe (x / pow2 (ulp_exp x))) * pow2 (ulp_exp x))"

definition fl :: "rat \<Rightarrow> pyfloat" where
  "fl x = (let r = rnd x in
     if pow2 1024 \<le> r then PInf else if r \<le> - pow2 1024 then NInf
     else if r = 0 \<and> x < 0 then NZero else Fin r)"

fun fneg :: "pyfloat \<Rightarrow> pyfloat" where
  "fneg (Fin a) = (if a = 0 then NZero else Fin (- a))"
| "fneg NZero = Fin 0"
| "fneg PInf = NInf"
| "fneg NInf = PInf"
| "fneg NaN = NaN"

text \<open>
  A sum that is exactly zero is \<^verbatim>\<open>0.0\<close>, unless both terms are \<^verbatim>\<open>-0.0\<close>.
\<close>

fun fadd :: "pyfloat \<Rightarrow> pyfloat \<Rightarrow> pyfloat" where
  "fadd (Fin a) (Fin b) = fl (a + b)"
| "fadd (Fin a) NZero = Fin a"
| "fadd NZero (Fin b) = Fin b"
| "fadd NZero NZero = NZero"
| "fadd NaN y = NaN"
| "fadd x NaN = NaN"
| "fadd PInf NInf = NaN"
| "fadd NInf PInf = NaN"
| "fadd PInf y = PInf"
| "fadd NInf y = NInf"
| "fadd x PInf = PInf"
| "fadd x NInf = NInf"

definition fsub :: "pyfloat \<Rightarrow> pyfloat \<Rightarrow> pyfloat" where
  "fsub a b = fadd a (fneg b)"

text \<open>
  \<^verbatim>\<open>x / k\<close> for a float \<open>x\<close> and a positive int literal \<open>k\<close> (the source divides
  by \<open>2\<close> and by \<open>4\<close> only).
\<close>

fun fdiv :: "pyfloat \<Rightarrow> rat \<Rightarrow> pyfloat" where
  "fdiv (Fin a) k = fl (a / k)"
| "fdiv x k = x"

text \<open>
  \<^verbatim>\<open>round(x, 2)\<close>: CPython renders \<open>x\<close> correctly rounded (ties to even on the exact
  binary value) as a sign and digits, two of them after the point, and reads that text
  back as a double; a zero, an infinity or a NaN is returned as it is.
\<close>

fun py_round2 :: "pyfloat \<Rightarrow> pyfloat" where
  "py_round2 (Fin a) =
     (let m = fl (of_int (rhe (\<bar>a\<bar> * 100)) / 100) in if a < 0 then fneg m else m)"
| "py_round2 x = x"

text \<open>
  An order of the representations, total, with NaN below everything and \<^verbatim>\<open>-0.0\<close> just
  below \<^verbatim>\<open>0.0\<close>. Python compares the two zeros equal and compares nothing with a NaN:
  \<open>zkey\<close> sends both zeros to one key, and \<open>py_eq\<close> and \<open>py_lt\<close> are Python's
  \<^verbatim>\<open>==\<close> and \<^verbatim>\<open><\<close>.
\<close>

fun fle :: "pyfloat \<Rightarrow> pyfloat \<Rightarrow> bool" where
  "fle NaN y = True"
| "fle x NaN = False"
| "fle NInf y = True"
| "fle x NInf = False"
| "fle x PInf = True"
| "fle PInf y = False"
| "fle NZero NZero = True"
| "fle NZero (Fin b) = (0 \<le> b)"
| "fle (Fin a) NZero = (a < 0)"
| "fle (Fin a) (Fin b) = (a \<le> b)"

instantiation pyfloat :: linorder
begin

definition less_eq_pyfloat :: "pyfloat \<Rightarrow> pyfloat \<Rightarrow> bool" where
  "less_eq_pyfloat x y = fle x y"

definition less_pyfloat :: "pyfloat \<Rightarrow> pyfloat \<Rightarrow> bool" where
  "less_pyfloat x y = (fle x y \<and> \<not> fle y x)"

instance
proof
  fix x y z :: pyfloat
  show "(x < y) = (x \<le> y \<and> \<not> y \<le> x)"
    by (simp add: less_eq_pyfloat_def less_pyfloat_def)
  show "x \<le> x"
    by (cases x) (simp_all add: less_eq_pyfloat_def)
  show "x \<le> y \<Longrightarrow> y \<le> z \<Longrightarrow> x \<le> z"
    by (cases x; cases y; cases z) (simp_all add: less_eq_pyfloat_def)
  show "x \<le> y \<Longrightarrow> y \<le> x \<Longrightarrow> x = y"
    by (cases x; cases y) (simp_all add: less_eq_pyfloat_def)
  show "x \<le> y \<or> y \<le> x"
    by (cases x; cases y) (auto simp add: less_eq_pyfloat_def)
qed

end

definition zkey :: "pyfloat \<Rightarrow> pyfloat" where
  "zkey x = (if x = NZero then Fin 0 else x)"

definition py_eq :: "pyfloat \<Rightarrow> pyfloat \<Rightarrow> bool" where
  "py_eq x y = (x \<noteq> NaN \<and> y \<noteq> NaN \<and> zkey x = zkey y)"

definition py_lt :: "pyfloat \<Rightarrow> pyfloat \<Rightarrow> bool" where
  "py_lt x y = (x \<noteq> NaN \<and> y \<noteq> NaN \<and> zkey x < zkey y)"

section \<open>Rows\<close>

text \<open>
  The dict built by \<open>get_random_rows\<close>, keys \<^verbatim>\<open>'Stock-ID'\<close>, \<^verbatim>\<open>'Timestamp'\<close> and
  \<^verbatim>\<open>'Stock Price Value'\<close> in this order.
\<close>

record stock_row =
  stock_id :: string
  timestamp :: date
  price :: pyfloat

section \<open>\<^verbatim>\<open>predict_next_values\<close>\<close>

text \<open>
  \<^verbatim>\<open>set([...])\<close>: the elements are inserted in the order of the list, and one that
  is equal to an element already there is dropped. Every NaN is an object of its own and
  equal to nothing, so all of them stay.
\<close>

fun py_set :: "pyfloat list \<Rightarrow> pyfloat list" where
  "py_set [] = []"
| "py_set (x # xs) = x # py_set (filter (\<lambda>y. \<not> py_eq x y) xs)"

text \<open>
  \<^verbatim>\<open>sorted(..., reverse=True)\<close> of the set. Without a NaN the order of the elements is
  total and the result is the one descending list. With a NaN every comparison with it is
  false, and what comes out depends on the order in which the set yields its elements,
  which follows the hash of each NaN object (its address): that is a parameter, \<open>order\<close>,
  the arrangement the run leaves the elements in. It is used only if it is an arrangement
  of these very elements.
\<close>

definition arrange :: "(pyfloat list \<Rightarrow> pyfloat list) \<Rightarrow> pyfloat list \<Rightarrow> pyfloat list" where
  "arrange order u = (if mset (order u) = mset u then order u else u)"

text \<open>Lines 99-100.\<close>

definition sorted_stock_price_values ::
    "(pyfloat list \<Rightarrow> pyfloat list) \<Rightarrow> stock_row list \<Rightarrow> pyfloat list" where
  "sorted_stock_price_values order random_rows =
     (let unique_stock_price_values = py_set (map price random_rows) in
      if NaN \<in> set unique_stock_price_values then arrange order unique_stock_price_values
      else rev (sort_key zkey unique_stock_price_values))"

text \<open>Lines 99-109: the three predicted values.\<close>

definition predicted_values ::
    "(pyfloat list \<Rightarrow> pyfloat list) \<Rightarrow> stock_row list \<Rightarrow> exn + pyfloat list" where
  "predicted_values order random_rows =
     (let s = sorted_stock_price_values order random_rows in
      if random_rows = [] then Inl IndexError
      else
        let n = price (last random_rows)
        in if length s < 2 then Inl IndexError
           else
             let p0 = s ! 1;
                 p1 = py_round2 (fadd p0 (fdiv (fsub n p0) 2));
                 p2 = py_round2 (fadd p1 (fdiv (fsub p0 p1) 4))
             in Inr [p0, p1, p2])"

text \<open>
  Lines 112-117: each predicted value is appended as a row that copies the stock id of the
  row that is last at that moment and is dated one day after it.
\<close>

fun append_predicted :: "pyfloat list \<Rightarrow> stock_row list \<Rightarrow> exn + stock_row list" where
  "append_predicted [] random_rows = Inr random_rows"
| "append_predicted (v # vs) random_rows =
     (case add_one_day (timestamp (last random_rows)) of
        Inl e \<Rightarrow> Inl e
      | Inr d \<Rightarrow>
          append_predicted vs
            (random_rows @ [\<lparr>stock_id = stock_id (last random_rows), timestamp = d, price = v\<rparr>]))"

text \<open>
  The argument is what \<open>get_random_rows\<close> returned: \<open>None\<close> is Python's \<^verbatim>\<open>None\<close>,
  which the list comprehension of line 99 cannot iterate.
\<close>

definition predict_next_values ::
    "(pyfloat list \<Rightarrow> pyfloat list) \<Rightarrow> stock_row list option \<Rightarrow> exn + stock_row list" where
  "predict_next_values order arg =
     (case arg of
        None \<Rightarrow> Inl TypeError
      | Some random_rows \<Rightarrow>
          (case predicted_values order random_rows of
             Inl e \<Rightarrow> Inl e
           | Inr vs \<Rightarrow> append_predicted vs random_rows))"

section \<open>Text\<close>

text \<open>
  Strings are lists of 8-bit characters and the text is taken to be ASCII. The white space
  that \<^verbatim>\<open>str.strip()\<close> removes is then the characters 9 to 13 and 28 to 32.
\<close>

definition is_space :: "char \<Rightarrow> bool" where
  "is_space c = (let n = (of_char c :: nat) in (9 \<le> n \<and> n \<le> 13) \<or> (28 \<le> n \<and> n \<le> 32))"

definition is_digit :: "char \<Rightarrow> bool" where
  "is_digit c = (let n = (of_char c :: nat) in 48 \<le> n \<and> n \<le> 57)"

definition digit_val :: "char \<Rightarrow> nat" where
  "digit_val c = of_char c - 48"

definition to_lower :: "char \<Rightarrow> char" where
  "to_lower c = (let n = (of_char c :: nat) in if 65 \<le> n \<and> n \<le> 90 then char_of (n + 32) else c)"

text \<open>
  \<^verbatim>\<open>float()\<close> removes the white space of C's \<^verbatim>\<open>isspace\<close> only, which lacks the
  separators 28 to 31.
\<close>

definition is_cspace :: "char \<Rightarrow> bool" where
  "is_cspace c = (let n = (of_char c :: nat) in (9 \<le> n \<and> n \<le> 13) \<or> n = 32)"

definition strip_by :: "(char \<Rightarrow> bool) \<Rightarrow> string \<Rightarrow> string" where
  "strip_by sp s = rev (dropWhile sp (rev (dropWhile sp s)))"

text \<open>\<^verbatim>\<open>s.strip()\<close>\<close>

definition strip :: "string \<Rightarrow> string" where
  "strip s = strip_by is_space s"

text \<open>\<^verbatim>\<open>s.split(sep)\<close> for a separator of one character: never an empty list.\<close>

fun split_on :: "char \<Rightarrow> string \<Rightarrow> string list" where
  "split_on sep [] = [[]]"
| "split_on sep (c # cs) =
     (if c = sep then [] # split_on sep cs
      else (case split_on sep cs of
              [] \<Rightarrow> [[c]]
            | part # parts \<Rightarrow> (c # part) # parts))"

text \<open>The number that a string of decimal digits denotes (\<^verbatim>\<open>int(s)\<close>).\<close>

definition nat_of_digits :: "string \<Rightarrow> nat" where
  "nat_of_digits ds = foldl (\<lambda>n c. 10 * n + digit_val c) 0 ds"

subsection \<open>\<^verbatim>\<open>datetime.strptime(s, "%d-%m-%Y").date()\<close>\<close>

text \<open>
  The format compiles to the regular expression
  \<^verbatim>\<open>(3[0-1]|[1-2]\d|0[1-9]|[1-9]| [1-9])-(1[0-2]|0[1-9]|[1-9])-(\d\d\d\d)\<close>, which must
  match the whole string; no alternative holds a hyphen, so the three groups are the
  three fields between hyphens. A day that the month does not have, or year 0, is a
  \<^verbatim>\<open>ValueError\<close> as well.
\<close>

definition day_field :: "string \<Rightarrow> nat option" where
  "day_field s =
     (case s of
        [a, b] \<Rightarrow>
          if a = CHR ''3'' \<and> (b = CHR ''0'' \<or> b = CHR ''1'') then Some (30 + digit_val b)
          else if (a = CHR ''1'' \<or> a = CHR ''2'') \<and> is_digit b
            then Some (10 * digit_val a + digit_val b)
          else if a = CHR ''0'' \<and> is_digit b \<and> b \<noteq> CHR ''0'' then Some (digit_val b)
          else if a = CHR '' '' \<and> is_digit b \<and> b \<noteq> CHR ''0'' then Some (digit_val b)
          else None
      | [a] \<Rightarrow> if is_digit a \<and> a \<noteq> CHR ''0'' then Some (digit_val a) else None
      | _ \<Rightarrow> None)"

definition month_field :: "string \<Rightarrow> nat option" where
  "month_field s =
     (case s of
        [a, b] \<Rightarrow>
          if a = CHR ''1'' \<and> (b = CHR ''0'' \<or> b = CHR ''1'' \<or> b = CHR ''2'')
            then Some (10 + digit_val b)
          else if a = CHR ''0'' \<and> is_digit b \<and> b \<noteq> CHR ''0'' then Some (digit_val b)
          else None
      | [a] \<Rightarrow> if is_digit a \<and> a \<noteq> CHR ''0'' then Some (digit_val a) else None
      | _ \<Rightarrow> None)"

definition year_field :: "string \<Rightarrow> nat option" where
  "year_field s = (if length s = 4 \<and> list_all is_digit s then Some (nat_of_digits s) else None)"

definition strptime_dmy :: "string \<Rightarrow> exn + date" where
  "strptime_dmy s =
     (case split_on CHR ''-'' s of
        [ds, ms, ys] \<Rightarrow>
          (case (day_field ds, month_field ms, year_field ys) of
             (Some d, Some m, Some y) \<Rightarrow>
               if valid_date (Date y m d) then Inr (Date y m d) else Inl ValueError
           | _ \<Rightarrow> Inl ValueError)
      | _ \<Rightarrow> Inl ValueError)"

subsection \<open>\<^verbatim>\<open>float(s)\<close>\<close>

text \<open>
  An underscore is accepted between two digits only and is dropped; \<open>None\<close> is a
  misplaced one.
\<close>

fun drop_underscores :: "char \<Rightarrow> string \<Rightarrow> string option" where
  "drop_underscores prev [] = (if prev = CHR ''_'' then None else Some [])"
| "drop_underscores prev (c # cs) =
     (if c = CHR ''_'' then (if is_digit prev then drop_underscores c cs else None)
      else if prev = CHR ''_'' \<and> \<not> is_digit c then None
      else map_option ((#) c) (drop_underscores c cs))"

text \<open>An optional sign: whether it is a minus, and the rest.\<close>

definition take_sign :: "string \<Rightarrow> bool \<times> string" where
  "take_sign s =
     (case s of
        [] \<Rightarrow> (False, [])
      | c # cs \<Rightarrow> if c = CHR ''-'' then (True, cs) else if c = CHR ''+'' then (False, cs)
                 else (False, s))"

definition scale10 :: "rat \<Rightarrow> int \<Rightarrow> rat" where
  "scale10 x k = (if 0 \<le> k then x * 10 ^ nat k else x / 10 ^ nat (- k))"

text \<open>
  The exponent part of a decimal literal: empty, or \<^verbatim>\<open>e\<close> or \<^verbatim>\<open>E\<close>, an optional
  sign and at least one digit.
\<close>

definition exponent_part :: "string \<Rightarrow> int option" where
  "exponent_part s =
     (case s of
        [] \<Rightarrow> Some 0
      | c # cs \<Rightarrow>
          if c = CHR ''e'' \<or> c = CHR ''E'' then
            (case take_sign cs of
               (neg, ds) \<Rightarrow>
                 if ds \<noteq> [] \<and> list_all is_digit ds
                 then Some (if neg then - int (nat_of_digits ds) else int (nat_of_digits ds))
                 else None)
          else None)"

text \<open>
  An unsigned decimal literal: digits, an optional point and digits (a digit on one side
  of the point at least), an optional exponent. The value is exact.
\<close>

definition decimal_literal :: "string \<Rightarrow> rat option" where
  "decimal_literal s =
     (let ip = takeWhile is_digit s; r1 = dropWhile is_digit s;
          has_point = (r1 \<noteq> [] \<and> hd r1 = CHR ''.'');
          fp = (if has_point then takeWhile is_digit (tl r1) else []);
          r2 = (if has_point then dropWhile is_digit (tl r1) else r1)
      in if ip = [] \<and> fp = [] then None
         else (case exponent_part r2 of
                 None \<Rightarrow> None
               | Some e \<Rightarrow> Some (scale10 (of_nat (nat_of_digits (ip @ fp))) (e - int (length fp)))))"

definition py_float :: "string \<Rightarrow> exn + pyfloat" where
  "py_float s =
     (case drop_underscores (CHR 0x00) (strip_by is_cspace s) of
        None \<Rightarrow> Inl ValueError
      | Some t \<Rightarrow>
          (case take_sign t of
             (neg, u) \<Rightarrow>
               let l = map to_lower u in
               if l = ''inf'' \<or> l = ''infinity'' then Inr (if neg then NInf else PInf)
               else if l = ''nan'' then Inr NaN
               else (case decimal_literal u of
                       None \<Rightarrow> Inl ValueError
                     | Some q \<Rightarrow> Inr (if neg then fneg (fl q) else fl q))))"

section \<open>\<^verbatim>\<open>generate_random_start_row\<close> and \<^verbatim>\<open>get_random_rows\<close>\<close>

text \<open>
  \<^verbatim>\<open>random.randint(a, b)\<close> with \<open>a \<le> b\<close>. The generator is seeded from the clock just
  before, so what it yields is a parameter: \<open>draw\<close> is the raw number drawn, reduced
  into the range.
\<close>

definition randint :: "nat \<Rightarrow> nat \<Rightarrow> nat \<Rightarrow> nat" where
  "randint draw a b = a + draw mod (b - a + 1)"

definition generate_random_start_row :: "nat \<Rightarrow> nat \<Rightarrow> nat" where
  "generate_random_start_row draw total_row_count =
     (if total_row_count < 10 then 0 else randint draw 0 (total_row_count - 10))"

text \<open>
  Lines 70-75: a line becomes a row. The dict display evaluates its values in order, so a
  missing second field is met before the date is parsed and a missing third one after.
\<close>

definition parse_row :: "string \<Rightarrow> exn + stock_row" where
  "parse_row row =
     (let splitted_row = split_on CHR '','' (strip row) in
      if length splitted_row < 2 then Inl IndexError
      else (case strptime_dmy (splitted_row ! 1) of
              Inl e \<Rightarrow> Inl e
            | Inr d \<Rightarrow>
                if length splitted_row < 3 then Inl IndexError
                else (case py_float (splitted_row ! 2) of
                        Inl e \<Rightarrow> Inl e
                      | Inr v \<Rightarrow> Inr \<lparr>stock_id = splitted_row ! 0, timestamp = d, price = v\<rparr>)))"

text \<open>Lines 65-76: the loop over the lines of the file, \<open>current_row\<close> counting them.\<close>

fun read_rows :: "nat \<Rightarrow> nat \<Rightarrow> string list \<Rightarrow> stock_row list \<Rightarrow> exn + stock_row list" where
  "read_rows start_row current_row [] random_rows = Inr random_rows"
| "read_rows start_row current_row (row # rest) random_rows =
     (if current_row \<ge> start_row + 10 then Inr random_rows
      else if current_row \<ge> start_row then
        (case parse_row row of
           Inl e \<Rightarrow> Inl e
         | Inr r \<Rightarrow> read_rows start_row (current_row + 1) rest (random_rows @ [r]))
      else read_rows start_row (current_row + 1) rest random_rows)"

text \<open>What the program prints: one diagnostic for each \<^verbatim>\<open>except\<close> clause.\<close>

datatype diag = NotExist string | Denied string | Unexpected exn

definition report :: "string \<Rightarrow> exn \<Rightarrow> diag" where
  "report path e =
     (if e = FileNotFoundError then NotExist path
      else if e = PermissionError then Denied path
      else Unexpected e)"

text \<open>
  \<open>opened\<close> is what opening and reading the file gives: its lines, or the exception that
  \<^verbatim>\<open>open\<close> or the reading raises. The result is what is printed and what is returned,
  \<open>None\<close> being Python's \<^verbatim>\<open>None\<close> after a caught exception.
\<close>

definition get_random_rows ::
    "nat \<Rightarrow> string \<Rightarrow> exn + string list \<Rightarrow> diag list \<times> stock_row list option" where
  "get_random_rows draw file_path opened =
     (case opened of
        Inl e \<Rightarrow> ([report file_path e], None)
      | Inr file \<Rightarrow>
          let total_row_count = length file;
              start_row = generate_random_start_row draw total_row_count
          in (case read_rows start_row 0 file [] of
                Inl e \<Rightarrow> ([report file_path e], None)
              | Inr random_rows \<Rightarrow> ([], Some random_rows)))"

section \<open>\<^verbatim>\<open>format_rows\<close>\<close>

subsection \<open>Rendering\<close>








subsection \<open>Dicts in the store\<close>










text \<open>
  What the specification asks of a rendered row: a date as \<^verbatim>\<open>DD-MM-YYYY\<close>, a price
  with a point and exactly two digits after it.
\<close>

definition dmy_text :: "string \<Rightarrow> bool" where
  "dmy_text s =
     (case s of
        [d1, d2, h1, m1, m2, h2, y1, y2, y3, y4] \<Rightarrow>
          list_all is_digit [d1, d2, m1, m2, y1, y2, y3, y4] \<and> h1 = CHR ''-'' \<and> h2 = CHR ''-''
      | _ \<Rightarrow> False)"

definition two_decimals_text :: "string \<Rightarrow> bool" where
  "two_decimals_text s =
     (case rev s of
        c2 # c1 # p # front \<Rightarrow>
          is_digit c2 \<and> is_digit c1 \<and> p = CHR ''.''
          \<and> (case rev front of
                [] \<Rightarrow> False
              | c # cs \<Rightarrow> if c = CHR ''-'' then cs \<noteq> [] \<and> list_all is_digit cs
                           else list_all is_digit (c # cs))
      | _ \<Rightarrow> False)"

section \<open>\<^verbatim>\<open>save_predicted_stock_rows\<close> and \<^verbatim>\<open>process_files_from_exchange\<close>\<close>











section \<open>Sample windows\<close>

definition demo_window :: "stock_row list" where
  "demo_window =
     [\<lparr>stock_id = ''ACME'', timestamp = Date 2023 12 29, price = Fin 10\<rparr>,
      \<lparr>stock_id = ''ACME'', timestamp = Date 2023 12 30, price = Fin 12\<rparr>,
      \<lparr>stock_id = ''ACME'', timestamp = Date 2023 12 31, price = Fin 12\<rparr>,
      \<lparr>stock_id = ''ACME'', timestamp = Date 2024 1 1, price = Fin 11\<rparr>,
      \<lparr>stock_id = ''ACME'', timestamp = Date 2024 2 27, price = Fin 10\<rparr>]"

text \<open>Windows that end in the last days of \<^verbatim>\<open>date.max\<close>'s year.\<close>

definition last_day_window :: "stock_row list" where
  "last_day_window =
     [\<lparr>stock_id = ''ACME'', timestamp = Date 9999 12 30, price = Fin 10\<rparr>,
      \<lparr>stock_id = ''ACME'', timestamp = Date 9999 12 31, price = Fin 11\<rparr>]"

definition december_window :: "stock_row list" where
  "december_window =
     [\<lparr>stock_id = ''ACME'', timestamp = Date 9999 12 29, price = Fin 7\<rparr>,
      \<lparr>stock_id = ''ACME'', timestamp = Date 9999 12 30, price = Fin 8\<rparr>]"

text \<open>Windows with the price text \<^verbatim>\<open>nan\<close>.\<close>

definition nan_pair_window :: "stock_row list" where
  "nan_pair_window =
     [\<lparr>stock_id = ''ACME'', timestamp = Date 2024 5 1, price = Fin 5\<rparr>,
      \<lparr>stock_id = ''ACME'', timestamp = Date 2024 5 2, price = NaN\<rparr>]"



text \<open>
  The scenario of the specification: the literals \<^verbatim>\<open>10.0\<close>, \<^verbatim>\<open>9.8\<close>, ... are the
  doubles nearest to them.
\<close>

definition scenario_window :: "stock_row list" where
  "scenario_window =
     map (\<lambda>(d, v). \<lparr>stock_id = ''ACME'', timestamp = Date 2024 1 d, price = fl v\<rparr>)
       [(1, 10), (2, 10), (3, 12), (4, 9), (5, 9.5), (6, 11), (7, 10.5), (8, 9.8), (9, 10.2),
        (10, 9.9)]"

text \<open>A window that ends on 9999-12-29, and a file whose ten rows carry one price.\<close>

definition late_window :: "stock_row list" where
  "late_window =
     [\<lparr>stock_id = ''ACME'', timestamp = Date 9999 12 28, price = Fin 3\<rparr>,
      \<lparr>stock_id = ''ACME'', timestamp = Date 9999 12 29, price = Fin 4\<rparr>]"



subsection \<open>Powers of two\<close>

lemma pow2_powi: "pow2 k = 2 powi k"
  by (simp add: pow2_def power_int_def inverse_eq_divide power_one_over)

lemma pow2_pos [simp]: "0 < pow2 k"
  by (simp add: pow2_powi)

lemma pow2_nonzero [simp]: "pow2 k \<noteq> 0"
  by (simp add: pow2_powi)

lemma pow2_add: "pow2 (a + b) = pow2 a * pow2 b"
  by (simp add: pow2_powi power_int_add)

lemma pow2_0 [simp]: "pow2 0 = 1"
  by (simp add: pow2_def)

lemma pow2_plus1: "pow2 (k + 1) = 2 * pow2 k"
  by (simp add: pow2_powi power_int_add_1)

lemma pow2_mono: "a \<le> b \<Longrightarrow> pow2 a \<le> pow2 b"
  by (simp add: pow2_powi power_int_increasing)

lemma pow2_strict_mono: "a < b \<Longrightarrow> pow2 a < pow2 b"
  by (simp add: pow2_powi power_int_strict_increasing)

lemma pow2_less_cancel: "pow2 a < pow2 b \<Longrightarrow> a < b"
  using pow2_mono [of b a] by (cases "a < b") auto

lemma pow2_nat: "0 \<le> k \<Longrightarrow> pow2 k = of_int (2 ^ nat k)"
  by (simp add: pow2_def)

subsection \<open>The binary logarithm\<close>

lemma flog2_bounds:
  assumes "0 < x"
  shows "pow2 (flog2 x) \<le> x \<and> x < pow2 (flog2 x + 1)"
proof (cases "1 \<le> x")
  case True
  define m where "m = \<lfloor>x\<rfloor>"
  from True have m: "0 < m" by (simp add: m_def)
  from bitlen_bounds [OF m] have b: "2 ^ nat (bitlen m - 1) \<le> m" "m < 2 ^ nat (bitlen m)"
    by simp_all
  from m have b1: "1 \<le> bitlen m" by (simp add: bitlen_alt_def)
  have f: "flog2 x = bitlen m - 1" using True by (simp add: flog2_def m_def)
  have "pow2 (bitlen m - 1) = of_int (2 ^ nat (bitlen m - 1))"
    using b1 by (simp add: pow2_nat)
  also have "\<dots> \<le> of_int m" using b(1) by (simp only: of_int_le_iff)
  also have "\<dots> \<le> x" by (simp add: m_def)
  finally have lo: "pow2 (flog2 x) \<le> x" by (simp add: f)
  have "x < of_int (m + 1)" using floor_correct [of x] by (simp add: m_def)
  also have "\<dots> \<le> of_int (2 ^ nat (bitlen m))"
    using b(2) by (simp only: of_int_le_iff)
  also have "\<dots> = pow2 (bitlen m)" using b1 by (simp add: pow2_nat)
  finally have "x < pow2 (flog2 x + 1)" by (simp add: f)
  with lo show ?thesis ..
next
  case False
  define y where "y = 1 / x"
  define c where "c = \<lceil>y\<rceil>"
  from False assms have y1: "1 < y" by (simp add: y_def)
  then have c2: "2 \<le> c" unfolding c_def by (simp add: less_ceiling_iff [symmetric])
  define m where "m = c - 1"
  from c2 have m: "0 < m" by (simp add: m_def)
  from bitlen_bounds [OF m] have b: "2 ^ nat (bitlen m - 1) \<le> m" "m < 2 ^ nat (bitlen m)"
    by simp_all
  from m have b1: "1 \<le> bitlen m" by (simp add: bitlen_alt_def)
  have f: "flog2 x = - bitlen m" using False by (simp add: flog2_def m_def c_def y_def)
  have ylo: "of_int m < y" using ceiling_correct [of y] by (simp add: m_def c_def)
  have yhi: "y \<le> of_int c" unfolding c_def by (rule le_of_int_ceiling)
  have "y \<le> of_int (2 ^ nat (bitlen m))"
  proof -
    from b(2) have "c \<le> 2 ^ nat (bitlen m)" by (simp add: m_def)
    then have "(of_int c :: rat) \<le> of_int (2 ^ nat (bitlen m))" by (simp only: of_int_le_iff)
    with yhi show ?thesis by (rule order_trans)
  qed
  also have "\<dots> = pow2 (bitlen m)" using b1 by (simp add: pow2_nat)
  finally have "y \<le> pow2 (bitlen m)" .
  then have "1 / pow2 (bitlen m) \<le> 1 / y"
    using y1 by (intro divide_left_mono) simp_all
  then have lo: "pow2 (flog2 x) \<le> x"
    using assms by (simp add: f y_def pow2_powi power_int_minus_divide)
  have "pow2 (bitlen m - 1) = of_int (2 ^ nat (bitlen m - 1))"
    using b1 by (simp add: pow2_nat)
  also have "\<dots> \<le> of_int m" using b(1) by (simp only: of_int_le_iff)
  also have "\<dots> < y" by (rule ylo)
  finally have "pow2 (bitlen m - 1) < y" .
  moreover from y1 have "0 < y" by simp
  ultimately have "1 / y < 1 / pow2 (bitlen m - 1)"
    by (intro divide_strict_left_mono) (simp_all add: zero_less_mult_iff)
  moreover have "1 / pow2 (bitlen m - 1) = pow2 (- bitlen m + 1)"
    by (simp add: pow2_powi power_int_minus_divide [symmetric])
  ultimately have "x < pow2 (flog2 x + 1)"
    using assms by (simp add: f y_def)
  with lo show ?thesis ..
qed

lemma flog2_unique:
  assumes "pow2 k \<le> x" and "x < pow2 (k + 1)"
  shows "flog2 x = k"
proof -
  from assms(1) have x: "0 < x" using pow2_pos [of k] by linarith
  from flog2_bounds [OF x] have f: "pow2 (flog2 x) \<le> x" "x < pow2 (flog2 x + 1)"
    by simp_all
  from assms(1) f(2) have "pow2 k < pow2 (flog2 x + 1)" by linarith
  then have a: "k < flog2 x + 1" by (rule pow2_less_cancel)
  from f(1) assms(2) have "pow2 (flog2 x) < pow2 (k + 1)" by linarith
  then have "flog2 x < k + 1" by (rule pow2_less_cancel)
  with a show ?thesis by simp
qed

subsection \<open>Rounding to an integer\<close>

lemma rhe_near: "\<bar>x - of_int m\<bar> < 1 / 2 \<Longrightarrow> rhe x = m"
proof -
  assume a: "\<bar>x - of_int m\<bar> < 1 / 2"
  show ?thesis
  proof (cases "of_int m \<le> x")
    case True
    with a have "\<lfloor>x\<rfloor> = m" by (intro floor_unique) (simp_all add: abs_less_iff)
    with a True show ?thesis by (simp add: rhe_def Let_def abs_less_iff)
  next
    case False
    with a have "\<lfloor>x\<rfloor> = m - 1" by (intro floor_unique) (simp_all add: abs_less_iff)
    with a False show ?thesis by (simp add: rhe_def Let_def abs_less_iff)
  qed
qed

lemma rhe_tie_down: "x = of_int m + 1 / 2 \<Longrightarrow> even m \<Longrightarrow> rhe x = m"
proof -
  assume a: "x = of_int m + 1 / 2" and e: "even m"
  have "\<lfloor>x\<rfloor> = m" unfolding a by (intro floor_unique) simp_all
  with a e show ?thesis by (simp add: rhe_def Let_def)
qed

lemma rhe_tie_up: "x = of_int m - 1 / 2 \<Longrightarrow> even m \<Longrightarrow> rhe x = m"
proof -
  assume a: "x = of_int m - 1 / 2" and e: "even m"
  have "\<lfloor>x\<rfloor> = m - 1" unfolding a by (intro floor_unique) simp_all
  with a e show ?thesis by (simp add: rhe_def Let_def)
qed

lemma rhe_of_int [simp]: "rhe (of_int m) = m"
  by (rule rhe_near) simp

subsection \<open>Rounding to a double\<close>

lemma ulp_exp_eq:
  assumes "pow2 k \<le> \<bar>x\<bar>" and "\<bar>x\<bar> < pow2 (k + 1)"
  shows "ulp_exp x = max (k - 52) (- 1074)"
  using flog2_unique [OF assms] by (simp add: ulp_exp_def)

lemma fl_eq:
  assumes "pow2 k \<le> \<bar>x\<bar>" and "\<bar>x\<bar> < pow2 (k + 1)"
    and "e = max (k - 52) (- 1074)"
    and "rhe (x / pow2 e) = m"
    and "\<bar>of_int m * pow2 e\<bar> < pow2 1024"
    and "m \<noteq> 0"
  shows "fl x = Fin (of_int m * pow2 e)"
proof -
  from assms(1) pow2_pos [of k] have "0 < \<bar>x\<bar>" by linarith
  then have "x \<noteq> 0" by simp
  then have "rnd x = of_int m * pow2 e"
    using ulp_exp_eq [OF assms(1,2)] assms(3,4) by (simp add: rnd_def)
  with assms(5,6) show ?thesis
    by (simp add: fl_def Let_def abs_less_iff not_le)
qed

lemma fl_0 [simp]: "fl 0 = Fin 0"
  by (simp add: fl_def rnd_def Let_def not_le less_imp_le)

section \<open>The forecaster\<close>

subsection \<open>The set of the prices\<close>

lemmas pyfloat_order = less_eq_pyfloat_def less_pyfloat_def

lemma py_set_subset: "set (py_set xs) \<subseteq> set xs"
  by (induction xs rule: py_set.induct) auto

lemma zkey_py_set: "zkey ` set (py_set xs) = zkey ` set xs"
proof (induction xs rule: py_set.induct)
  case 1
  then show ?case by simp
next
  case (2 x xs)
  have "zkey ` set xs \<subseteq> insert (zkey x) (zkey ` {y \<in> set xs. \<not> py_eq x y})"
    by (auto simp: py_eq_def zkey_def split: if_splits)
  with "2" show ?case by auto
qed

lemma NaN_py_set: "NaN \<in> set (py_set xs) \<longleftrightarrow> NaN \<in> set xs"
proof
  assume "NaN \<in> set (py_set xs)"
  with py_set_subset show "NaN \<in> set xs" by blast
next
  assume "NaN \<in> set xs"
  then have "zkey NaN \<in> zkey ` set (py_set xs)" unfolding zkey_py_set by (rule imageI)
  then show "NaN \<in> set (py_set xs)" by (auto simp: zkey_def split: if_splits)
qed

lemma distinct_keys_py_set: "NaN \<notin> set xs \<Longrightarrow> distinct (map zkey (py_set xs))"
proof (induction xs rule: py_set.induct)
  case 1
  then show ?case by simp
next
  case (2 x xs)
  from "2.prems" have x: "x \<noteq> NaN" and xs: "NaN \<notin> set xs" by auto
  have "zkey x \<notin> zkey ` set (filter (\<lambda>y. \<not> py_eq x y) xs)"
    using x xs by (auto simp: py_eq_def)
  moreover have "distinct (map zkey (py_set (filter (\<lambda>y. \<not> py_eq x y) xs)))"
    using xs by (intro "2.IH") auto
  ultimately show ?case by (simp add: zkey_py_set)
qed

lemma card_keys_le_py_set: "card (zkey ` set xs) \<le> length (py_set xs)"
proof -
  have "card (zkey ` set xs) = card (zkey ` set (py_set xs))" by (simp add: zkey_py_set)
  also have "\<dots> \<le> card (set (py_set xs))" by (intro card_image_le) simp
  also have "\<dots> \<le> length (py_set xs)" by (rule card_length)
  finally show ?thesis .
qed

lemma length_arrange [simp]: "length (arrange order u) = length u"
proof (cases "mset (order u) = mset u")
  case True
  then have "length (order u) = length u" by (rule mset_eq_length)
  with True show ?thesis by (simp add: arrange_def)
next
  case False
  then show ?thesis by (simp add: arrange_def)
qed

lemma set_arrange [simp]: "set (arrange order u) = set u"
proof (cases "mset (order u) = mset u")
  case True
  then have "set (order u) = set u" by (rule mset_eq_setD)
  with True show ?thesis by (simp add: arrange_def)
next
  case False
  then show ?thesis by (simp add: arrange_def)
qed

lemma length_sorted_values:
  "length (sorted_stock_price_values order w) = length (py_set (map price w))"
  by (simp add: sorted_stock_price_values_def Let_def)

lemma set_sorted_values:
  "set (sorted_stock_price_values order w) = set (py_set (map price w))"
  by (simp add: sorted_stock_price_values_def Let_def)

lemma enough_sorted_values:
  assumes "2 \<le> card (zkey ` price ` set w)"
  shows "2 \<le> length (sorted_stock_price_values order w)"
  using assms card_keys_le_py_set [of "map price w"] by (simp add: length_sorted_values)

subsection \<open>Without a NaN: the descending list\<close>

lemma second_of_descending:
  fixes a b :: "'a::linorder"
  assumes "sorted_wrt (\<lambda>x y. y < x) (a # b # rest)"
  shows "Max (set (a # b # rest) - {Max (set (a # b # rest))}) = b"
proof -
  from assms have ab: "b < a" and ra: "\<forall>x\<in>set rest. x < a" and rb: "\<forall>x\<in>set rest. x < b"
    by auto
  have m: "Max (set (a # b # rest)) = a"
    using ab ra by (intro Max_eqI) (auto intro: less_imp_le)
  have "set (a # b # rest) - {a} = insert b (set rest)"
    using ab ra by auto
  moreover have "Max (insert b (set rest)) = b"
    using rb by (intro Max_eqI) (auto intro: less_imp_le)
  ultimately show ?thesis using m by simp
qed

lemma keys_descending:
  assumes "NaN \<notin> price ` set w"
  shows "sorted_wrt (\<lambda>x y. y < x) (map zkey (sorted_stock_price_values order w))"
    and "set (map zkey (sorted_stock_price_values order w)) = zkey ` price ` set w"
proof -
  define u where "u = py_set (map price w)"
  from assms have nan: "NaN \<notin> set (map price w)" by simp
  then have nu: "NaN \<notin> set u" by (simp add: u_def NaN_py_set)
  have s: "sorted_stock_price_values order w = rev (sort_key zkey u)"
    using nu by (simp add: sorted_stock_price_values_def u_def [symmetric])
  have "mset (map zkey (sort_key zkey u)) = mset (map zkey u)"
    by simp
  then have "distinct (map zkey (sort_key zkey u)) \<longleftrightarrow> distinct (map zkey u)"
    by (metis distinct_count_atmost_1 set_mset_mset)
  with distinct_keys_py_set [OF nan] have d: "distinct (map zkey (sort_key zkey u))"
    by (simp add: u_def)
  have "sorted (map zkey (sort_key zkey u))"
    by (rule sorted_sort_key)
  with d have "sorted_wrt (<) (map zkey (sort_key zkey u))"
    by (simp add: strict_sorted_iff)
  then show "sorted_wrt (\<lambda>x y. y < x) (map zkey (sorted_stock_price_values order w))"
    by (simp add: s rev_map [symmetric] sorted_wrt_rev)
  show "set (map zkey (sorted_stock_price_values order w)) = zkey ` price ` set w"
    using zkey_py_set [of "map price w"] by (simp add: s u_def)
qed

lemma second_sorted_value:
  assumes "NaN \<notin> price ` set w" and "2 \<le> card (zkey ` price ` set w)"
  shows "zkey (sorted_stock_price_values order w ! 1) =
           Max (zkey ` price ` set w - {Max (zkey ` price ` set w)})"
    and "sorted_stock_price_values order w ! 1 \<in> price ` set w"
proof -
  let ?s = "sorted_stock_price_values order w"
  from enough_sorted_values [OF assms(2), of order] have len: "2 \<le> length ?s" .
  then obtain a b rest where s: "map zkey ?s = a # b # rest"
    by (cases ?s; cases "tl ?s") auto
  have "Max (set (map zkey ?s) - {Max (set (map zkey ?s))}) = b"
    using keys_descending(1) [OF assms(1), of order] unfolding s by (rule second_of_descending)
  moreover have "zkey (?s ! 1) = b"
    using len s by (metis One_nat_def length_map nth_Cons_0 nth_Cons_Suc nth_map
        numeral_2_eq_2 Suc_le_lessD Suc_1)
  ultimately show "zkey (?s ! 1) = Max (zkey ` price ` set w - {Max (zkey ` price ` set w)})"
    by (simp only: keys_descending(2) [OF assms(1)])
  from len have "?s ! 1 \<in> set ?s" by (intro nth_mem) simp
  then show "?s ! 1 \<in> price ` set w"
    using py_set_subset [of "map price w"] by (auto simp: set_sorted_values)
qed

lemma predicted_values_Inr:
  assumes "2 \<le> card (zkey ` price ` set w)"
  shows "\<exists>p1 p2. predicted_values order w = Inr [sorted_stock_price_values order w ! 1, p1, p2]"
proof -
  from assms have "w \<noteq> []" by auto
  moreover from enough_sorted_values [OF assms, of order]
  have "\<not> length (sorted_stock_price_values order w) < 2" by simp
  ultimately show ?thesis
    by (simp add: predicted_values_def Let_def)
qed

lemma append_predicted3:
  "append_predicted [a, b, c] rows = Inr res \<longleftrightarrow>
     (\<exists>d1 d2 d3. add_one_day (timestamp (last rows)) = Inr d1 \<and> add_one_day d1 = Inr d2
        \<and> add_one_day d2 = Inr d3
        \<and> res = rows @ [\<lparr>stock_id = stock_id (last rows), timestamp = d1, price = a\<rparr>,
                        \<lparr>stock_id = stock_id (last rows), timestamp = d2, price = b\<rparr>,
                        \<lparr>stock_id = stock_id (last rows), timestamp = d3, price = c\<rparr>])"
  by (auto split: sum.splits)

subsection \<open>Calendar days\<close>

lemma leap_arith:
  fixes a b c w :: nat
  assumes "b \<le> a"
  shows "w + 365 + (a + 1) - (b + 1) + (c + 1) = w + a - b + c + 366"
    and "w + 365 + (a + 1) - (b + 1) + c = w + a - b + c + 365"
    and "w + 365 + (a + 1) - b + c = w + a - b + c + 366"
    and "w + 365 + a - b + c = w + a - b + c + 365"
  using assms by simp_all

lemma days_before_year_Suc:
  assumes "1 \<le> y"
  shows "days_before_year (Suc y) = days_before_year y + (if is_leap y then 366 else 365)"
proof -
  obtain z where y: "y = Suc z" using assms by (cases y) auto
  define a b c w where "a = z div 4" and "b = z div 100" and "c = z div 400" and "w = z * 365"
  have d4: "Suc z div 4 = (if Suc z mod 4 = 0 then a + 1 else a)"
    by (simp add: div_Suc a_def)
  have d100: "Suc z div 100 = (if Suc z mod 100 = 0 then b + 1 else b)"
    by (simp add: div_Suc b_def)
  have d400: "Suc z div 400 = (if Suc z mod 400 = 0 then c + 1 else c)"
    by (simp add: div_Suc c_def)
  have le: "b \<le> a"
    unfolding a_def b_def by (rule div_le_mono2) simp_all
  have i1: "Suc z mod 400 = 0 \<Longrightarrow> Suc z mod 100 = 0"
    by presburger
  have i2: "Suc z mod 100 = 0 \<Longrightarrow> Suc z mod 4 = 0"
    by presburger
  have w: "Suc z * 365 = w + 365"
    by (simp add: w_def)
  have "Suc z * 365 + Suc z div 4 - Suc z div 100 + Suc z div 400 =
        w + a - b + c
        + (if Suc z mod 4 = 0 \<and> (Suc z mod 100 \<noteq> 0 \<or> Suc z mod 400 = 0) then 366 else 365)"
  proof (cases "Suc z mod 4 = 0")
    case m4: True
    show ?thesis
    proof (cases "Suc z mod 100 = 0")
      case m100: True
      show ?thesis
      proof (cases "Suc z mod 400 = 0")
        case True
        with m4 m100 show ?thesis
          unfolding d4 d100 d400 w using leap_arith(1) [OF le] by simp
      next
        case False
        with m4 m100 show ?thesis
          unfolding d4 d100 d400 w using leap_arith(2) [OF le] by simp
      qed
    next
      case False
      from False i1 have "Suc z mod 400 \<noteq> 0" by (rule contrapos_nn)
      with m4 False show ?thesis
        unfolding d4 d100 d400 w using leap_arith(3) [OF le] by simp
    qed
  next
    case False
    from False i2 have n100: "Suc z mod 100 \<noteq> 0" by (rule contrapos_nn)
    from n100 i1 have "Suc z mod 400 \<noteq> 0" by (rule contrapos_nn)
    with False n100 show ?thesis
      unfolding d4 d100 d400 w using leap_arith(4) [OF le] by simp
  qed
  then show ?thesis
    unfolding y days_before_year_def is_leap_def Let_def diff_Suc_1 a_def b_def c_def w_def .
qed

lemma days_before_month_12: "days_before_month y 12 = (if is_leap y then 335 else 334)"
  by (simp add: eval_nat_numeral days_in_month_def)

lemma days_before_month_step:
  "1 \<le> m \<Longrightarrow> days_before_month y (m + 1) = days_before_month y m + days_in_month y m"
  by (cases m) simp_all

lemma add_one_day_step:
  assumes "valid_date d" and "d \<noteq> Date 9999 12 31"
  shows "\<exists>d'. add_one_day d = Inr d' \<and> valid_date d' \<and> toordinal d' = toordinal d + 1"
proof (cases "day d < days_in_month (year d) (month d)")
  case True
  with assms(1) show ?thesis
    by (simp add: add_one_day_def valid_date_def toordinal_def)
next
  case last_day: False
  with assms(1) have dd: "day d = days_in_month (year d) (month d)"
    by (simp add: valid_date_def)
  show ?thesis
  proof (cases "month d < 12")
    case True
    from assms(1) have m1: "1 \<le> month d" by (simp add: valid_date_def)
    have step: "add_one_day d = Inr (Date (year d) (month d + 1) 1)"
      using True last_day by (simp add: add_one_day_def)
    have v: "valid_date (Date (year d) (month d + 1) 1)"
      using assms(1) True by (simp add: valid_date_def days_in_month_def)
    have "toordinal (Date (year d) (month d + 1) 1) = toordinal d + 1"
      using days_before_month_step [OF m1, of "year d"] dd by (simp add: toordinal_def)
    with step v show ?thesis by simp
  next
    case False
    with assms(1) have m: "month d = 12" by (simp add: valid_date_def)
    with dd have d31: "day d = 31" by (simp add: days_in_month_def)
    from assms m d31 have y: "year d < 9999"
      by (cases d) (auto simp: valid_date_def)
    from assms(1) have y1: "1 \<le> year d" by (simp add: valid_date_def)
    show ?thesis using y y1 m d31 last_day
      by (simp add: add_one_day_def valid_date_def toordinal_def days_before_year_Suc
          days_before_month_12 days_in_month_def)
  qed
qed

lemma toordinal_max: "toordinal (Date 9999 12 31) = 3652059"
  by (simp add: toordinal_def days_before_year_def days_before_month_12 is_leap_def)
lemma add_one_day_ok:
  assumes "valid_date d" and "toordinal d < toordinal (Date 9999 12 31)"
  shows "\<exists>d'. add_one_day d = Inr d' \<and> valid_date d' \<and> toordinal d' = toordinal d + 1"
proof -
  from assms(2) have "d \<noteq> Date 9999 12 31" by auto
  with assms(1) show ?thesis by (rule add_one_day_step)
qed

lemma add_one_day_Inl: "add_one_day d = Inl e \<Longrightarrow> e = OverflowError"
  by (auto simp: add_one_day_def split: if_splits)

lemma days_before_month_table:
  "days_before_month y 1 = 0"
  "days_before_month y 2 = 31"
  "days_before_month y 3 = (if is_leap y then 60 else 59)"
  "days_before_month y 4 = (if is_leap y then 91 else 90)"
  "days_before_month y 5 = (if is_leap y then 121 else 120)"
  "days_before_month y 6 = (if is_leap y then 152 else 151)"
  "days_before_month y 7 = (if is_leap y then 182 else 181)"
  "days_before_month y 8 = (if is_leap y then 213 else 212)"
  "days_before_month y 9 = (if is_leap y then 244 else 243)"
  "days_before_month y 10 = (if is_leap y then 274 else 273)"
  "days_before_month y 11 = (if is_leap y then 305 else 304)"
proof -
  show m1: "days_before_month y 1 = 0" by simp
  show m2: "days_before_month y 2 = 31"
    by (simp add: numeral_2_eq_2 days_in_month_def)
  show m3: "days_before_month y 3 = (if is_leap y then 60 else 59)"
    using days_before_month_step [of 2 y] m2 by (simp add: days_in_month_def)
  show m4: "days_before_month y 4 = (if is_leap y then 91 else 90)"
    using days_before_month_step [of 3 y] m3 by (simp add: days_in_month_def)
  show m5: "days_before_month y 5 = (if is_leap y then 121 else 120)"
    using days_before_month_step [of 4 y] m4 by (simp add: days_in_month_def)
  show m6: "days_before_month y 6 = (if is_leap y then 152 else 151)"
    using days_before_month_step [of 5 y] m5 by (simp add: days_in_month_def)
  show m7: "days_before_month y 7 = (if is_leap y then 182 else 181)"
    using days_before_month_step [of 6 y] m6 by (simp add: days_in_month_def)
  show m8: "days_before_month y 8 = (if is_leap y then 213 else 212)"
    using days_before_month_step [of 7 y] m7 by (simp add: days_in_month_def)
  show m9: "days_before_month y 9 = (if is_leap y then 244 else 243)"
    using days_before_month_step [of 8 y] m8 by (simp add: days_in_month_def)
  show m10: "days_before_month y 10 = (if is_leap y then 274 else 273)"
    using days_before_month_step [of 9 y] m9 by (simp add: days_in_month_def)
  show "days_before_month y 11 = (if is_leap y then 305 else 304)"
    using days_before_month_step [of 10 y] m10 by (simp add: days_in_month_def)
qed

lemma day_of_year_le:
  assumes "valid_date d"
  shows "days_before_month (year d) (month d) + day d \<le> (if is_leap (year d) then 366 else 365)"
proof -
  from assms have m: "1 \<le> month d" "month d \<le> 12"
    and dd: "day d \<le> days_in_month (year d) (month d)"
    by (simp_all add: valid_date_def)
  from m have "month d = 1 \<or> month d = 2 \<or> month d = 3 \<or> month d = 4 \<or> month d = 5
      \<or> month d = 6 \<or> month d = 7 \<or> month d = 8 \<or> month d = 9 \<or> month d = 10
      \<or> month d = 11 \<or> month d = 12"
    by arith
  then show ?thesis
    using dd
    by (elim disjE)
      (simp_all add: days_before_month_table days_before_month_12 days_in_month_def
        split: if_splits)
qed

lemma days_before_year_mono:
  assumes "1 \<le> a" and "a \<le> b"
  shows "days_before_year a \<le> days_before_year b"
  using assms(2,1)
proof (induction b rule: dec_induct)
  case base
  then show ?case by simp
next
  case (step n)
  then have "1 \<le> n" by simp
  from days_before_year_Suc [OF this] step show ?case by simp
qed

lemma days_before_year_10000: "days_before_year 10000 = 3652059"
  by (simp add: days_before_year_def)

lemma toordinal_le_max:
  assumes "valid_date d"
  shows "toordinal d \<le> toordinal (Date 9999 12 31)"
proof -
  from assms have y: "1 \<le> year d" "year d \<le> 9999" by (simp_all add: valid_date_def)
  have "toordinal d \<le> days_before_year (year d) + (if is_leap (year d) then 366 else 365)"
    using day_of_year_le [OF assms] by (simp add: toordinal_def)
  also have "\<dots> = days_before_year (Suc (year d))"
    using days_before_year_Suc [OF y(1)] by simp
  also have "\<dots> \<le> days_before_year 10000"
    using y by (intro days_before_year_mono) simp_all
  finally show ?thesis by (simp add: days_before_year_10000 toordinal_max)
qed

text \<open>
  Three days after a valid date: the three successive results of
  \<^verbatim>\<open>+ timedelta(days=1)\<close>, when the calendar has them.
\<close>

lemma three_days_on:
  assumes "valid_date t" and "toordinal t + 3 \<le> toordinal (Date 9999 12 31)"
  shows "\<exists>d1 d2 d3. add_one_day t = Inr d1 \<and> add_one_day d1 = Inr d2 \<and> add_one_day d2 = Inr d3
           \<and> valid_date d1 \<and> valid_date d2 \<and> valid_date d3
           \<and> toordinal d1 = toordinal t + 1 \<and> toordinal d2 = toordinal t + 2
           \<and> toordinal d3 = toordinal t + 3"
proof -
  define top where "top = toordinal (Date 9999 12 31)"
  note step = add_one_day_ok [folded top_def]
  have room: "toordinal t + 3 \<le> top"
    using assms(2) by (simp add: top_def)
  from room have "toordinal t < top" by simp
  from step [OF assms(1) this]
  obtain d1 where d1: "add_one_day t = Inr d1" and v1: "valid_date d1"
    and o1: "toordinal d1 = toordinal t + 1"
    by blast
  from room o1 have "toordinal d1 < top" by simp
  from step [OF v1 this]
  obtain d2 where d2: "add_one_day d1 = Inr d2" and v2: "valid_date d2"
    and o2: "toordinal d2 = toordinal d1 + 1"
    by blast
  from room o1 o2 have "toordinal d2 < top" by simp
  from step [OF v2 this]
  obtain d3 where d3: "add_one_day d2 = Inr d3" and v3: "valid_date d3"
    and o3: "toordinal d3 = toordinal d2 + 1"
    by blast
  from o1 o2 o3 have "toordinal d2 = toordinal t + 2" "toordinal d3 = toordinal t + 3"
    by simp_all
  with d1 d2 d3 v1 v2 v3 o1 show ?thesis by blast
qed

lemma three_days_overflow:
  assumes "valid_date t" and "\<not> toordinal t + 3 \<le> toordinal (Date 9999 12 31)"
    and last_t: "timestamp (last rows) = t"
  shows "append_predicted [a, b, c] rows = Inl OverflowError"
proof (cases "append_predicted [a, b, c] rows")
  case (Inl e)
  then have "e = OverflowError"
    by (auto split: sum.splits dest: add_one_day_Inl)
  with Inl show ?thesis by simp
next
  case (Inr res)
  then have "\<exists>d1 d2 d3. add_one_day t = Inr d1 \<and> add_one_day d1 = Inr d2
      \<and> add_one_day d2 = Inr d3"
    unfolding append_predicted3 last_t by blast
  then obtain d1 d2 d3 where d: "add_one_day t = Inr d1" "add_one_day d1 = Inr d2"
    "add_one_day d2 = Inr d3"
    by blast
  have n1: "t \<noteq> Date 9999 12 31" using d(1) by (auto simp: add_one_day_def days_in_month_def)
  from add_one_day_step [OF assms(1) n1] d(1)
  have v1: "valid_date d1" and o1: "toordinal d1 = toordinal t + 1" by auto
  have n2: "d1 \<noteq> Date 9999 12 31" using d(2) by (auto simp: add_one_day_def days_in_month_def)
  from add_one_day_step [OF v1 n2] d(2)
  have v2: "valid_date d2" and o2: "toordinal d2 = toordinal d1 + 1" by auto
  have n3: "d2 \<noteq> Date 9999 12 31" using d(3) by (auto simp: add_one_day_def days_in_month_def)
  from add_one_day_step [OF v2 n3] d(3)
  have v3: "valid_date d3" and o3: "toordinal d3 = toordinal d2 + 1" by auto
  from toordinal_le_max [OF v3] o1 o2 o3 assms(2) show ?thesis by simp
qed

subsection \<open>What \<open>predict_next_values\<close> returns\<close>

lemma predict_next_values_rows:
  assumes "2 \<le> card (zkey ` price ` set w)"
    and "add_one_day (timestamp (last w)) = Inr d1" and "add_one_day d1 = Inr d2"
    and "add_one_day d2 = Inr d3"
  shows "\<exists>p1 p2. predict_next_values order (Some w) =
      Inr (w @ [\<lparr>stock_id = stock_id (last w), timestamp = d1,
                  price = sorted_stock_price_values order w ! 1\<rparr>,
                \<lparr>stock_id = stock_id (last w), timestamp = d2, price = p1\<rparr>,
                \<lparr>stock_id = stock_id (last w), timestamp = d3, price = p2\<rparr>])"
proof -
  from predicted_values_Inr [OF assms(1), of order]
  obtain p1 p2 where
    pv: "predicted_values order w = Inr [sorted_stock_price_values order w ! 1, p1, p2]"
    by blast
  have "append_predicted [sorted_stock_price_values order w ! 1, p1, p2] w =
      Inr (w @ [\<lparr>stock_id = stock_id (last w), timestamp = d1,
                  price = sorted_stock_price_values order w ! 1\<rparr>,
                \<lparr>stock_id = stock_id (last w), timestamp = d2, price = p1\<rparr>,
                \<lparr>stock_id = stock_id (last w), timestamp = d3, price = p2\<rparr>])"
    unfolding append_predicted3 using assms(2,3,4) by simp
  with pv show ?thesis
    by (simp add: predict_next_values_def)
qed

lemma predict_next_values_overflow:
  assumes "2 \<le> card (zkey ` price ` set w)" and "valid_date (timestamp (last w))"
    and "\<not> toordinal (timestamp (last w)) + 3 \<le> toordinal (Date 9999 12 31)"
  shows "predict_next_values order (Some w) = Inl OverflowError"
proof -
  from predicted_values_Inr [OF assms(1), of order]
  obtain p0 p1 p2 where pv: "predicted_values order w = Inr [p0, p1, p2]"
    by blast
  have "append_predicted [p0, p1, p2] w = Inl OverflowError"
    using assms(2,3) by (rule three_days_overflow) simp
  with pv show ?thesis
    by (simp add: predict_next_values_def)
qed

text \<open>
  C2 (as amended). For a window with at least two distinct prices, none of them a NaN,
  whose last row is dated at least three days before 9999-12-31,
  \<open>predict_next_values\<close> returns, and the price \<open>p0\<close> of the first row it appends is a
  price of the window equal to the second-largest distinct price: the largest price below
  the maximum. Prices are told apart as Python's \<^verbatim>\<open>==\<close> does (\<open>zkey\<close>), and the value
  depends on the set of the prices only, so a duplicated price does not move the rank.
\<close>

theorem p0_second_largest_distinct:
  assumes "NaN \<notin> price ` set w" and "2 \<le> card (zkey ` price ` set w)"
    and "valid_date (timestamp (last w))"
    and "toordinal (timestamp (last w)) + 3 \<le> toordinal (Date 9999 12 31)"
  shows "\<exists>res. predict_next_values order (Some w) = Inr res
           \<and> length res = length w + 3
           \<and> price (res ! length w) \<in> price ` set w
           \<and> zkey (price (res ! length w)) =
               Max (zkey ` price ` set w - {Max (zkey ` price ` set w)})"
proof -
  from three_days_on [OF assms(3,4)]
  obtain d1 d2 d3 where d: "add_one_day (timestamp (last w)) = Inr d1" "add_one_day d1 = Inr d2"
    "add_one_day d2 = Inr d3"
    by blast
  from predict_next_values_rows [OF assms(2) d, of order]
  obtain p1 p2 where r: "predict_next_values order (Some w) =
      Inr (w @ [\<lparr>stock_id = stock_id (last w), timestamp = d1,
                  price = sorted_stock_price_values order w ! 1\<rparr>,
                \<lparr>stock_id = stock_id (last w), timestamp = d2, price = p1\<rparr>,
                \<lparr>stock_id = stock_id (last w), timestamp = d3, price = p2\<rparr>])"
    by blast
  show ?thesis
    unfolding r using second_sorted_value [OF assms(1,2), of order] by simp
qed

lemma demo_window_prices: "price ` set demo_window = {Fin 10, Fin 11, Fin 12}"
  by (auto simp: demo_window_def)

lemma demo_window_keys: "zkey ` price ` set demo_window = {Fin 10, Fin 11, Fin 12}"
  by (simp add: demo_window_prices zkey_def)

lemma days_before_month_2: "days_before_month y 2 = 31"
  by (simp add: numeral_2_eq_2 days_in_month_def)

lemma toordinal_demo_last: "toordinal (Date 2024 2 27) = 738943"
  by (simp add: toordinal_def days_before_year_def days_before_month_2)

lemma demo_window_last:
  "last demo_window = \<lparr>stock_id = ''ACME'', timestamp = Date 2024 2 27, price = Fin 10\<rparr>"
  "length demo_window = 5"
  by (simp_all add: demo_window_def)

lemma demo_window_ok:
  "NaN \<notin> price ` set demo_window" "2 \<le> card (zkey ` price ` set demo_window)"
  "valid_date (timestamp (last demo_window))"
  "toordinal (timestamp (last demo_window)) + 3 \<le> toordinal (Date 9999 12 31)"
  by (simp_all add: demo_window_prices zkey_def demo_window_last valid_date_def
      days_in_month_def is_leap_def toordinal_demo_last toordinal_max)

theorem p0_second_largest_distinct_witness:
  "NaN \<notin> price ` set demo_window \<and> 2 \<le> card (zkey ` price ` set demo_window)
   \<and> valid_date (timestamp (last demo_window))
   \<and> toordinal (timestamp (last demo_window)) + 3 \<le> toordinal (Date 9999 12 31)
   \<and> (\<exists>res. predict_next_values (\<lambda>xs. xs) (Some demo_window) = Inr res
         \<and> length res = 8 \<and> price (res ! 5) \<in> {Fin 10, Fin 11, Fin 12}
         \<and> zkey (price (res ! 5)) = Fin 11)"
proof -
  have top: "Max (zkey ` price ` set demo_window) = Fin 12"
    by (simp add: demo_window_keys pyfloat_order)
  have rest: "zkey ` price ` set demo_window - {Fin 12} = {Fin 10, Fin 11}"
    by (auto simp: demo_window_keys)
  have m: "Max (zkey ` price ` set demo_window - {Max (zkey ` price ` set demo_window)}) = Fin 11"
    unfolding top rest by (simp add: pyfloat_order)
  from p0_second_largest_distinct [OF demo_window_ok, of "\<lambda>xs. xs"] demo_window_ok
  show ?thesis
    unfolding m by (simp add: demo_window_last demo_window_prices)
qed

text \<open>
  C2 as stated fails in two ways. A window of two distinct prices that ends on 9999-12-30
  gets no forecast at all: the second \<^verbatim>\<open>+ timedelta(days=1)\<close> raises
  \<^verbatim>\<open>OverflowError\<close>. And on a window with the prices 5.0 and NaN the two elements of
  the set are left as the set yields them: \<open>p0\<close> is the NaN, which is equal to no price,
  or it is 5.0, which is the largest price and not the second.
\<close>

theorem p0_not_second_largest:
  "2 \<le> card (zkey ` price ` set december_window)
   \<and> predict_next_values (\<lambda>xs. xs) (Some december_window) = Inl OverflowError
   \<and> 2 \<le> card (zkey ` price ` set nan_pair_window)
   \<and> map price (drop 2 (projr (predict_next_values (\<lambda>xs. xs) (Some nan_pair_window))))
       = [NaN, NaN, NaN]
   \<and> map price (drop 2 (projr (predict_next_values rev (Some nan_pair_window))))
       = [Fin 5, NaN, NaN]
   \<and> Max (zkey ` price ` set nan_pair_window) = Fin 5"
proof -
  have dk: "zkey ` price ` set december_window = {Fin 7, Fin 8}"
    by (auto simp: december_window_def zkey_def)
  have dc: "2 \<le> card (zkey ` price ` set december_window)"
    by (simp add: dk)
  have dv: "valid_date (timestamp (last december_window))"
    by (simp add: december_window_def valid_date_def days_in_month_def)
  have dt: "toordinal (timestamp (last december_window)) = 3652058"
    by (simp add: december_window_def toordinal_def days_before_year_def days_before_month_12
        is_leap_def)
  have "\<not> toordinal (timestamp (last december_window)) + 3 \<le> toordinal (Date 9999 12 31)"
    by (simp add: dt toordinal_max)
  with dc dv have d: "predict_next_values (\<lambda>xs. xs) (Some december_window) = Inl OverflowError"
    by (rule predict_next_values_overflow)
  have nk: "zkey ` price ` set nan_pair_window = {Fin 5, NaN}"
    by (auto simp: nan_pair_window_def zkey_def)
  have nc: "2 \<le> card (zkey ` price ` set nan_pair_window)"
    by (simp add: nk)
  have u: "py_set (map price nan_pair_window) = [Fin 5, NaN]"
    by (simp add: nan_pair_window_def py_eq_def)
  have s1: "sorted_stock_price_values (\<lambda>xs. xs) nan_pair_window = [Fin 5, NaN]"
    by (simp add: sorted_stock_price_values_def u arrange_def)
  have s2: "sorted_stock_price_values rev nan_pair_window = [NaN, Fin 5]"
    by (simp add: sorted_stock_price_values_def u arrange_def)
  have l: "last nan_pair_window = \<lparr>stock_id = ''ACME'', timestamp = Date 2024 5 2, price = NaN\<rparr>"
    "nan_pair_window \<noteq> []"
    by (simp_all add: nan_pair_window_def)
  have v1: "predicted_values (\<lambda>xs. xs) nan_pair_window = Inr [NaN, NaN, NaN]"
    by (simp add: predicted_values_def s1 l fsub_def)
  have v2: "predicted_values rev nan_pair_window = Inr [Fin 5, NaN, NaN]"
    by (simp add: predicted_values_def s2 l fsub_def)
  have days: "add_one_day (Date 2024 5 2) = Inr (Date 2024 5 3)"
    "add_one_day (Date 2024 5 3) = Inr (Date 2024 5 4)"
    "add_one_day (Date 2024 5 4) = Inr (Date 2024 5 5)"
    by (simp_all add: add_one_day_def days_in_month_def)
  have r1: "map price (drop 2 (projr (predict_next_values (\<lambda>xs. xs) (Some nan_pair_window))))
       = [NaN, NaN, NaN]"
    by (simp add: predict_next_values_def v1 l days) (simp add: nan_pair_window_def)
  have r2: "map price (drop 2 (projr (predict_next_values rev (Some nan_pair_window))))
       = [Fin 5, NaN, NaN]"
    by (simp add: predict_next_values_def v2 l days) (simp add: nan_pair_window_def)
  have "Max (zkey ` price ` set nan_pair_window) = Fin 5"
    by (simp add: nk pyfloat_order)
  with dc d nc r1 r2 show ?thesis by simp
qed

text \<open>
  C4 (as amended). For a window with at least two distinct prices whose last row carries
  a valid date: if that date is at least three days before 9999-12-31,
  \<open>predict_next_values\<close> returns the rows of the window, unchanged and in order, followed by
  exactly three rows that carry the stock id of the last sampled row and are dated by
  three successive \<^verbatim>\<open>+ timedelta(days=1)\<close>, valid dates one, two and three days after
  it; otherwise it raises \<^verbatim>\<open>OverflowError\<close> and returns no rows.
\<close>

theorem forecast_appends_three_days:
  assumes "2 \<le> card (zkey ` price ` set w)" and "valid_date (timestamp (last w))"
  shows "if toordinal (timestamp (last w)) + 3 \<le> toordinal (Date 9999 12 31)
    then \<exists>d1 d2 d3 p0 p1 p2.
      predict_next_values order (Some w) =
        Inr (w @ [\<lparr>stock_id = stock_id (last w), timestamp = d1, price = p0\<rparr>,
                  \<lparr>stock_id = stock_id (last w), timestamp = d2, price = p1\<rparr>,
                  \<lparr>stock_id = stock_id (last w), timestamp = d3, price = p2\<rparr>])
      \<and> add_one_day (timestamp (last w)) = Inr d1 \<and> add_one_day d1 = Inr d2
      \<and> add_one_day d2 = Inr d3
      \<and> valid_date d1 \<and> valid_date d2 \<and> valid_date d3
      \<and> toordinal d1 = toordinal (timestamp (last w)) + 1
      \<and> toordinal d2 = toordinal (timestamp (last w)) + 2
      \<and> toordinal d3 = toordinal (timestamp (last w)) + 3
    else predict_next_values order (Some w) = Inl OverflowError"
proof (cases "toordinal (timestamp (last w)) + 3 \<le> toordinal (Date 9999 12 31)")
  case True
  from three_days_on [OF assms(2) True]
  obtain d1 d2 d3 where d: "add_one_day (timestamp (last w)) = Inr d1" "add_one_day d1 = Inr d2"
    "add_one_day d2 = Inr d3"
    and v: "valid_date d1" "valid_date d2" "valid_date d3"
    and o: "toordinal d1 = toordinal (timestamp (last w)) + 1"
      "toordinal d2 = toordinal (timestamp (last w)) + 2"
      "toordinal d3 = toordinal (timestamp (last w)) + 3"
    by blast
  from predict_next_values_rows [OF assms(1) d, of order]
  obtain p1 p2 where "predict_next_values order (Some w) =
      Inr (w @ [\<lparr>stock_id = stock_id (last w), timestamp = d1,
                  price = sorted_stock_price_values order w ! 1\<rparr>,
                \<lparr>stock_id = stock_id (last w), timestamp = d2, price = p1\<rparr>,
                \<lparr>stock_id = stock_id (last w), timestamp = d3, price = p2\<rparr>])"
    by blast
  with d v o have "\<exists>d1 d2 d3 p0 p1 p2.
      predict_next_values order (Some w) =
        Inr (w @ [\<lparr>stock_id = stock_id (last w), timestamp = d1, price = p0\<rparr>,
                  \<lparr>stock_id = stock_id (last w), timestamp = d2, price = p1\<rparr>,
                  \<lparr>stock_id = stock_id (last w), timestamp = d3, price = p2\<rparr>])
      \<and> add_one_day (timestamp (last w)) = Inr d1 \<and> add_one_day d1 = Inr d2
      \<and> add_one_day d2 = Inr d3
      \<and> valid_date d1 \<and> valid_date d2 \<and> valid_date d3
      \<and> toordinal d1 = toordinal (timestamp (last w)) + 1
      \<and> toordinal d2 = toordinal (timestamp (last w)) + 2
      \<and> toordinal d3 = toordinal (timestamp (last w)) + 3"
    by blast
  with True show ?thesis by (simp only: if_True)
next
  case False
  from predict_next_values_overflow [OF assms False] False show ?thesis
    by (simp only: if_False)
qed


section \<open>The sampler\<close>

lemma generate_random_start_row_bound:
  "generate_random_start_row draw tot + min 10 tot \<le> tot"
proof (cases "tot < 10")
  case True
  then show ?thesis by (simp add: generate_random_start_row_def)
next
  case False
  have "draw mod Suc (tot - 10) < Suc (tot - 10)"
    by simp
  with False have "draw mod Suc (tot - 10) + 10 \<le> tot"
    by linarith
  with False show ?thesis
    by (simp add: generate_random_start_row_def randint_def)
qed


lemma read_rows_Inr:
  "read_rows start cur ls acc = Inr rows \<longleftrightarrow>
     (\<exists>new. rows = acc @ new
        \<and> map parse_row (take (start + 10 - max cur start) (drop (start - cur) ls)) = map Inr new)"
proof (induction ls arbitrary: cur acc)
  case Nil
  then show ?case by auto
next
  case (Cons row rest)
  show ?case
  proof (cases "start + 10 \<le> cur")
    case True
    then show ?thesis by auto
  next
    case below: False
    show ?thesis
    proof (cases "start \<le> cur")
      case True
      with below obtain k where k: "start + 10 - cur = Suc k"
        by (cases "start + 10 - cur") auto
      with True below have k': "start + 10 - max (cur + 1) start = k" by (simp add: max_def)
      from True have d: "start - cur = 0" "start - (cur + 1) = 0" by simp_all
      from True have m: "max cur start = cur" by simp
      show ?thesis
      proof (cases "parse_row row")
        case (Inl e)
        with True below show ?thesis
          by (auto simp: m d k)
      next
        case (Inr r)
        have "read_rows start cur (row # rest) acc = read_rows start (cur + 1) rest (acc @ [r])"
          using True below Inr by simp
        also have "\<dots> = Inr rows \<longleftrightarrow>
          (\<exists>new. rows = (acc @ [r]) @ new \<and> map parse_row (take k rest) = map Inr new)"
          using Cons.IH [of "cur + 1" "acc @ [r]"] by (simp only: k' d drop_0)
        also have "\<dots> \<longleftrightarrow>
          (\<exists>new. rows = acc @ new \<and> map parse_row (take (Suc k) (row # rest)) = map Inr new)"
          (is "?L \<longleftrightarrow> ?R")
        proof
          assume ?L
          then obtain new where "rows = acc @ (r # new)" "map parse_row (take k rest) = map Inr new"
            by auto
          then show ?R using Inr by (intro exI [of _ "r # new"]) simp
        next
          assume ?R
          then obtain new where n: "rows = acc @ new"
            "parse_row row # map parse_row (take k rest) = map Inr new"
            by auto
          then obtain new' where "new = r # new'" using Inr by (cases new) auto
          with n show ?L by (intro exI [of _ new']) simp
        qed
        finally show ?thesis by (simp only: m d k drop_0)
      qed
    next
      case False
      then have lt: "cur < start" by simp
      then have m: "max cur start = start" "max (cur + 1) start = start" by simp_all
      from lt obtain j where j: "start - cur = Suc j" by (cases "start - cur") auto
      then have j': "start - (cur + 1) = j" by simp
      have "read_rows start cur (row # rest) acc = read_rows start (cur + 1) rest acc"
        using lt by simp
      then show ?thesis
        using Cons.IH [of "cur + 1" acc] by (simp only: m j j' drop_Suc_Cons)
    qed
  qed
qed


lemma all_Inr_iff: "(\<exists>new. xs = map Inr new) \<longleftrightarrow> \<not> list_ex isl xs"
proof (induction xs)
  case Nil
  then show ?case by simp
next
  case (Cons x xs)
  show ?case
  proof (cases x)
    case (Inl e)
    then show ?thesis by auto
  next
    case (Inr r)
    have "(\<exists>new. x # xs = map Inr new) \<longleftrightarrow> (\<exists>new. xs = map Inr new)"
    proof
      assume "\<exists>new. x # xs = map Inr new"
      then obtain new where "x # xs = map Inr new" ..
      then show "\<exists>new. xs = map Inr new" by (cases new) auto
    next
      assume "\<exists>new. xs = map Inr new"
      then obtain new where "xs = map Inr new" ..
      with Inr have "x # xs = map Inr (r # new)" by simp
      then show "\<exists>new. x # xs = map Inr new" ..
    qed
    with Cons.IH Inr show ?thesis by simp
  qed
qed

text \<open>
  C5. The start row drawn lies in \<open>[0, total_row_count - 10]\<close> for a file of ten lines or
  more and is \<open>0\<close> for a shorter one. When \<open>get_random_rows\<close> returns rows, they are the
  lines \<open>[start_row, start_row + 10)\<close> of the file parsed in file order, ten of them for a
  file of ten lines or more and all the lines of a shorter file; it returns nothing
  exactly when one of these lines does not parse.
\<close>

theorem sampled_window_contiguous:
  "let total_row_count = length ls;
       start_row = generate_random_start_row draw total_row_count;
       window = take 10 (drop start_row ls)
   in (if 10 \<le> total_row_count then start_row \<le> total_row_count - 10 \<and> length window = 10
       else start_row = 0 \<and> window = ls)
      \<and> (case get_random_rows draw path (Inr ls) of
           (out, Some rows) \<Rightarrow>
             out = [] \<and> length rows = length window \<and> map Inr rows = map parse_row window
         | (out, None) \<Rightarrow> list_ex isl (map parse_row window))"
proof -
  define start where "start = generate_random_start_row draw (length ls)"
  define window where "window = take 10 (drop start ls)"
  have b: "start + min 10 (length ls) \<le> length ls"
    unfolding start_def by (rule generate_random_start_row_bound)
  have shape: "if 10 \<le> length ls then start \<le> length ls - 10 \<and> length window = 10
               else start = 0 \<and> window = ls"
    using b by (auto simp: window_def min_def split: if_splits)
  have w: "take (start + 10 - max 0 start) (drop (start - 0) ls) = window"
    by (simp add: window_def)
  have res: "case get_random_rows draw path (Inr ls) of
           (out, Some rows) \<Rightarrow>
             out = [] \<and> length rows = length window \<and> map Inr rows = map parse_row window
         | (out, None) \<Rightarrow> list_ex isl (map parse_row window)"
  proof (cases "read_rows start 0 ls []")
    case (Inl e)
    have "\<not> (\<exists>new. map parse_row window = map Inr new)"
    proof
      assume "\<exists>new. map parse_row window = map Inr new"
      then obtain new where "map parse_row window = map Inr new" ..
      then have "read_rows start 0 ls [] = Inr new"
        unfolding read_rows_Inr w by simp
      with Inl show False by simp
    qed
    then have "list_ex isl (map parse_row window)"
      by (simp add: all_Inr_iff)
    with Inl show ?thesis
      by (simp add: get_random_rows_def start_def [symmetric])
  next
    case (Inr rows)
    then have m: "map parse_row window = map Inr rows"
      unfolding read_rows_Inr w by simp
    then have "length window = length rows"
      by (metis length_map)
    with Inr m show ?thesis
      by (simp add: get_random_rows_def start_def [symmetric])
  qed
  show ?thesis
    unfolding Let_def using shape res unfolding window_def start_def by (rule conjI)
qed


lemma late_window_facts:
  "2 \<le> card (zkey ` price ` set late_window)"
  "valid_date (timestamp (last late_window))"
  "\<not> toordinal (timestamp (last late_window)) + 3 \<le> toordinal (Date 9999 12 31)"
proof -
  have "zkey ` price ` set late_window = {Fin 3, Fin 4}"
    by (auto simp: late_window_def zkey_def)
  then show "2 \<le> card (zkey ` price ` set late_window)"
    by simp
  show "valid_date (timestamp (last late_window))"
    by (simp add: late_window_def valid_date_def days_in_month_def)
  have "toordinal (timestamp (last late_window)) = 3652057"
    by (simp add: late_window_def toordinal_def days_before_year_def days_before_month_12
        is_leap_def)
  then show "\<not> toordinal (timestamp (last late_window)) + 3 \<le> toordinal (Date 9999 12 31)"
    by (simp add: toordinal_max)
qed

theorem forecast_appends_three_days_witness:
  "2 \<le> card (zkey ` price ` set demo_window) \<and> valid_date (timestamp (last demo_window))
   \<and> toordinal (timestamp (last demo_window)) + 3 \<le> toordinal (Date 9999 12 31)
   \<and> (\<exists>p0 p1 p2. predict_next_values (\<lambda>xs. xs) (Some demo_window) =
         Inr (demo_window @
           [\<lparr>stock_id = ''ACME'', timestamp = Date 2024 2 28, price = p0\<rparr>,
            \<lparr>stock_id = ''ACME'', timestamp = Date 2024 2 29, price = p1\<rparr>,
            \<lparr>stock_id = ''ACME'', timestamp = Date 2024 3 1, price = p2\<rparr>]))
   \<and> 2 \<le> card (zkey ` price ` set late_window) \<and> valid_date (timestamp (last late_window))
   \<and> toordinal (timestamp (last late_window)) + 3 > toordinal (Date 9999 12 31)
   \<and> predict_next_values (\<lambda>xs. xs) (Some late_window) = Inl OverflowError"
proof -
  have days: "add_one_day (Date 2024 2 27) = Inr (Date 2024 2 28)"
    "add_one_day (Date 2024 2 28) = Inr (Date 2024 2 29)"
    "add_one_day (Date 2024 2 29) = Inr (Date 2024 3 1)"
    by (simp_all add: add_one_day_def days_in_month_def is_leap_def)
  from forecast_appends_three_days [OF demo_window_ok(2,3), of "\<lambda>xs. xs"] demo_window_ok(4)
  have "\<exists>d1 d2 d3 p0 p1 p2.
      predict_next_values (\<lambda>xs. xs) (Some demo_window) =
        Inr (demo_window @ [\<lparr>stock_id = ''ACME'', timestamp = d1, price = p0\<rparr>,
                  \<lparr>stock_id = ''ACME'', timestamp = d2, price = p1\<rparr>,
                  \<lparr>stock_id = ''ACME'', timestamp = d3, price = p2\<rparr>])
      \<and> add_one_day (Date 2024 2 27) = Inr d1 \<and> add_one_day d1 = Inr d2
      \<and> add_one_day d2 = Inr d3"
    by (simp add: demo_window_last) blast
  then have a: "\<exists>p0 p1 p2. predict_next_values (\<lambda>xs. xs) (Some demo_window) =
         Inr (demo_window @
           [\<lparr>stock_id = ''ACME'', timestamp = Date 2024 2 28, price = p0\<rparr>,
            \<lparr>stock_id = ''ACME'', timestamp = Date 2024 2 29, price = p1\<rparr>,
            \<lparr>stock_id = ''ACME'', timestamp = Date 2024 3 1, price = p2\<rparr>])"
    by (auto simp: days)
  from forecast_appends_three_days [OF late_window_facts(1,2), of "\<lambda>xs. xs"] late_window_facts(3)
  have b: "predict_next_values (\<lambda>xs. xs) (Some late_window) = Inl OverflowError"
    by simp
  from a b demo_window_ok late_window_facts show ?thesis
    by (simp add: not_le)
qed

text \<open>
  C4 as stated fails on a window that ends on 9999-12-31: it is not empty and holds two
  distinct prices, and \<^verbatim>\<open>+ timedelta(days=1)\<close> raises \<^verbatim>\<open>OverflowError\<close>.
\<close>

theorem forecast_overflows_after_last_day:
  "last_day_window \<noteq> [] \<and> 2 \<le> card (zkey ` price ` set last_day_window)
   \<and> predict_next_values (\<lambda>xs. xs) (Some last_day_window) = Inl OverflowError"
proof -
  have "zkey ` price ` set last_day_window = {Fin 10, Fin 11}"
    by (auto simp: last_day_window_def zkey_def)
  then have c: "2 \<le> card (zkey ` price ` set last_day_window)"
    by simp
  from predicted_values_Inr [OF c, of "\<lambda>xs. xs"]
  obtain p0 p1 p2 where pv: "predicted_values (\<lambda>xs. xs) last_day_window = Inr [p0, p1, p2]"
    by blast
  have "add_one_day (timestamp (last last_day_window)) = Inl OverflowError"
    by (simp add: last_day_window_def add_one_day_def days_in_month_def)
  then have "append_predicted [p0, p1, p2] last_day_window = Inl OverflowError"
    by simp
  with pv have "predict_next_values (\<lambda>xs. xs) (Some last_day_window) = Inl OverflowError"
    by (simp add: predict_next_values_def)
  with c show ?thesis by (auto simp: last_day_window_def)
qed

section \<open>The exchange directory\<close>








lemma fl_10: "fl (10) = Fin (10)"
proof -
  have r: "rhe (10 / pow2 (- 49)) = 5629499534213120"
    by (rule rhe_near) (simp_all add: pow2_def)
  have "fl (10) = Fin (of_int 5629499534213120 * pow2 (- 49))"
    by (rule fl_eq [where k = "3", OF _ _ _ r]) (simp_all add: pow2_def)
  then show ?thesis
    by (simp add: pow2_def)
qed






section \<open>The scenario of the specification\<close>

lemma fl_9: "fl (9) = Fin (9)"
proof -
  have r: "rhe (9 / pow2 (- 49)) = 5066549580791808"
    by (rule rhe_near) (simp_all add: pow2_def)
  have "fl (9) = Fin (of_int 5066549580791808 * pow2 (- 49))"
    by (rule fl_eq [where k = "3", OF _ _ _ r]) (simp_all add: pow2_def)
  then show ?thesis
    by (simp add: pow2_def)
qed

lemma fl_9_5: "fl (19 / 2) = Fin (19 / 2)"
proof -
  have r: "rhe (19 / 2 / pow2 (- 49)) = 5348024557502464"
    by (rule rhe_near) (simp_all add: pow2_def)
  have "fl (19 / 2) = Fin (of_int 5348024557502464 * pow2 (- 49))"
    by (rule fl_eq [where k = "3", OF _ _ _ r]) (simp_all add: pow2_def)
  then show ?thesis
    by (simp add: pow2_def)
qed

lemma fl_9_8: "fl (49 / 5) = Fin (2758454771764429 / 281474976710656)"
proof -
  have r: "rhe (49 / 5 / pow2 (- 49)) = 5516909543528858"
    by (rule rhe_near) (simp_all add: pow2_def)
  have "fl (49 / 5) = Fin (of_int 5516909543528858 * pow2 (- 49))"
    by (rule fl_eq [where k = "3", OF _ _ _ r]) (simp_all add: pow2_def)
  then show ?thesis
    by (simp add: pow2_def)
qed

lemma fl_9_9: "fl (99 / 10) = Fin (5573204538870989 / 562949953421312)"
proof -
  have r: "rhe (99 / 10 / pow2 (- 49)) = 5573204538870989"
    by (rule rhe_near) (simp_all add: pow2_def)
  have "fl (99 / 10) = Fin (of_int 5573204538870989 * pow2 (- 49))"
    by (rule fl_eq [where k = "3", OF _ _ _ r]) (simp_all add: pow2_def)
  then show ?thesis
    by (simp add: pow2_def)
qed

lemma fl_10_2: "fl (51 / 5) = Fin (2871044762448691 / 281474976710656)"
proof -
  have r: "rhe (51 / 5 / pow2 (- 49)) = 5742089524897382"
    by (rule rhe_near) (simp_all add: pow2_def)
  have "fl (51 / 5) = Fin (of_int 5742089524897382 * pow2 (- 49))"
    by (rule fl_eq [where k = "3", OF _ _ _ r]) (simp_all add: pow2_def)
  then show ?thesis
    by (simp add: pow2_def)
qed

lemma fl_10_5: "fl (21 / 2) = Fin (21 / 2)"
proof -
  have r: "rhe (21 / 2 / pow2 (- 49)) = 5910974510923776"
    by (rule rhe_near) (simp_all add: pow2_def)
  have "fl (21 / 2) = Fin (of_int 5910974510923776 * pow2 (- 49))"
    by (rule fl_eq [where k = "3", OF _ _ _ r]) (simp_all add: pow2_def)
  then show ?thesis
    by (simp add: pow2_def)
qed

lemma fl_11: "fl (11) = Fin (11)"
proof -
  have r: "rhe (11 / pow2 (- 49)) = 6192449487634432"
    by (rule rhe_near) (simp_all add: pow2_def)
  have "fl (11) = Fin (of_int 6192449487634432 * pow2 (- 49))"
    by (rule fl_eq [where k = "3", OF _ _ _ r]) (simp_all add: pow2_def)
  then show ?thesis
    by (simp add: pow2_def)
qed

lemma fl_12: "fl (12) = Fin (12)"
proof -
  have r: "rhe (12 / pow2 (- 49)) = 6755399441055744"
    by (rule rhe_near) (simp_all add: pow2_def)
  have "fl (12) = Fin (of_int 6755399441055744 * pow2 (- 49))"
    by (rule fl_eq [where k = "3", OF _ _ _ r]) (simp_all add: pow2_def)
  then show ?thesis
    by (simp add: pow2_def)
qed

lemma fl_scn_sub1: "fl (- (619244948763443 / 562949953421312)) = Fin (- (619244948763443 / 562949953421312))"
proof -
  have r: "rhe (- (619244948763443 / 562949953421312) / pow2 (- 52)) = (- 4953959590107544)"
    by (rule rhe_near) (simp_all add: pow2_def)
  have "fl (- (619244948763443 / 562949953421312)) = Fin (of_int (- 4953959590107544) * pow2 (- 52))"
    by (rule fl_eq [where k = "0", OF _ _ _ r]) (simp_all add: pow2_def)
  then show ?thesis
    by (simp add: pow2_def)
qed

lemma fl_scn_half: "fl (- (619244948763443 / 1125899906842624)) = Fin (- (619244948763443 / 1125899906842624))"
proof -
  have r: "rhe (- (619244948763443 / 1125899906842624) / pow2 (- 53)) = (- 4953959590107544)"
    by (rule rhe_near) (simp_all add: pow2_def)
  have "fl (- (619244948763443 / 1125899906842624)) = Fin (of_int (- 4953959590107544) * pow2 (- 53))"
    by (rule fl_eq [where k = "- 1", OF _ _ _ r]) (simp_all add: pow2_def)
  then show ?thesis
    by (simp add: pow2_def)
qed

lemma fl_scn_mid1: "fl (11765654026505421 / 1125899906842624) = Fin (2941413506626355 / 281474976710656)"
proof -
  have r: "rhe (11765654026505421 / 1125899906842624 / pow2 (- 49)) = 5882827013252710"
    by (rule rhe_tie_down) (simp_all add: pow2_def)
  have "fl (11765654026505421 / 1125899906842624) = Fin (of_int 5882827013252710 * pow2 (- 49))"
    by (rule fl_eq [where k = "3", OF _ _ _ r]) (simp_all add: pow2_def)
  then show ?thesis
    by (simp add: pow2_def)
qed

lemma fl_10_45: "fl (209 / 20) = Fin (2941413506626355 / 281474976710656)"
proof -
  have r: "rhe (209 / 20 / pow2 (- 49)) = 5882827013252710"
    by (rule rhe_near) (simp_all add: pow2_def)
  have "fl (209 / 20) = Fin (of_int 5882827013252710 * pow2 (- 49))"
    by (rule fl_eq [where k = "3", OF _ _ _ r]) (simp_all add: pow2_def)
  then show ?thesis
    by (simp add: pow2_def)
qed

lemma fl_scn_sub2: "fl (154811237190861 / 281474976710656) = Fin (154811237190861 / 281474976710656)"
proof -
  have r: "rhe (154811237190861 / 281474976710656 / pow2 (- 53)) = 4953959590107552"
    by (rule rhe_near) (simp_all add: pow2_def)
  have "fl (154811237190861 / 281474976710656) = Fin (of_int 4953959590107552 * pow2 (- 53))"
    by (rule fl_eq [where k = "- 1", OF _ _ _ r]) (simp_all add: pow2_def)
  then show ?thesis
    by (simp add: pow2_def)
qed

lemma fl_scn_quarter: "fl (154811237190861 / 1125899906842624) = Fin (154811237190861 / 1125899906842624)"
proof -
  have r: "rhe (154811237190861 / 1125899906842624 / pow2 (- 55)) = 4953959590107552"
    by (rule rhe_near) (simp_all add: pow2_def)
  have "fl (154811237190861 / 1125899906842624) = Fin (of_int 4953959590107552 * pow2 (- 55))"
    by (rule fl_eq [where k = "- 3", OF _ _ _ r]) (simp_all add: pow2_def)
  then show ?thesis
    by (simp add: pow2_def)
qed

lemma fl_scn_mid2: "fl (11920465263696281 / 1125899906842624) = Fin (1490058157962035 / 140737488355328)"
proof -
  have r: "rhe (11920465263696281 / 1125899906842624 / pow2 (- 49)) = 5960232631848140"
    by (rule rhe_tie_down) (simp_all add: pow2_def)
  have "fl (11920465263696281 / 1125899906842624) = Fin (of_int 5960232631848140 * pow2 (- 49))"
    by (rule fl_eq [where k = "3", OF _ _ _ r]) (simp_all add: pow2_def)
  then show ?thesis
    by (simp add: pow2_def)
qed

lemma fl_10_59: "fl (1059 / 100) = Fin (2980820003365847 / 281474976710656)"
proof -
  have r: "rhe (1059 / 100 / pow2 (- 49)) = 5961640006731694"
    by (rule rhe_near) (simp_all add: pow2_def)
  have "fl (1059 / 100) = Fin (of_int 5961640006731694 * pow2 (- 49))"
    by (rule fl_eq [where k = "3", OF _ _ _ r]) (simp_all add: pow2_def)
  then show ?thesis
    by (simp add: pow2_def)
qed

lemmas fl_literals = fl_9 fl_9_5 fl_9_8 fl_9_9 fl_10 fl_10_2 fl_10_5 fl_11 fl_12

lemma scenario_prices:
  "map price scenario_window =
     [Fin 10, Fin 10, Fin 12, Fin 9, Fin (19 / 2), Fin 11, Fin (21 / 2), Fin (2758454771764429 / 281474976710656),
      Fin (2871044762448691 / 281474976710656), Fin (5573204538870989 / 562949953421312)]"
  by (simp add: scenario_window_def fl_literals)

lemma scenario_sorted:
  "sorted_stock_price_values order scenario_window =
     [Fin 12, Fin 11, Fin (21 / 2), Fin (2871044762448691 / 281474976710656), Fin 10, Fin (5573204538870989 / 562949953421312),
      Fin (2758454771764429 / 281474976710656), Fin (19 / 2), Fin 9]"
  by (simp add: sorted_stock_price_values_def scenario_prices py_eq_def zkey_def pyfloat_order)

lemma scenario_last: "last scenario_window =
    \<lparr>stock_id = ''ACME'', timestamp = Date 2024 1 10, price = Fin (5573204538870989 / 562949953421312)\<rparr>"
  by (simp add: scenario_window_def fl_literals)

lemma scenario_p1:
  "py_round2 (fadd (Fin 11) (fdiv (fsub (Fin (5573204538870989 / 562949953421312)) (Fin 11)) 2)) = fl 10.45"
proof -
  have "fsub (Fin (5573204538870989 / 562949953421312)) (Fin 11) = Fin (- (619244948763443 / 562949953421312))"
    using fl_scn_sub1 by (simp add: fsub_def)
  moreover have "fdiv (Fin (- (619244948763443 / 562949953421312))) 2 = Fin (- (619244948763443 / 1125899906842624))"
    using fl_scn_half by simp
  moreover have "fadd (Fin 11) (Fin (- (619244948763443 / 1125899906842624))) = Fin (2941413506626355 / 281474976710656)"
    using fl_scn_mid1 by simp
  moreover have "py_round2 (Fin (2941413506626355 / 281474976710656)) = fl 10.45"
  proof -
    have "rhe (2941413506626355 / 281474976710656 * 100) = 1045"
      by (rule rhe_near) simp
    then show ?thesis by simp
  qed
  ultimately show ?thesis by simp
qed

lemma scenario_p2:
  "py_round2 (fadd (Fin (2941413506626355 / 281474976710656)) (fdiv (fsub (Fin 11) (Fin (2941413506626355 / 281474976710656))) 4)) = fl 10.59"
proof -
  have "fsub (Fin 11) (Fin (2941413506626355 / 281474976710656)) = Fin (154811237190861 / 281474976710656)"
    using fl_scn_sub2 by (simp add: fsub_def)
  moreover have "fdiv (Fin (154811237190861 / 281474976710656)) 4 = Fin (154811237190861 / 1125899906842624)"
    using fl_scn_quarter by simp
  moreover have "fadd (Fin (2941413506626355 / 281474976710656)) (Fin (154811237190861 / 1125899906842624)) = Fin (1490058157962035 / 140737488355328)"
    using fl_scn_mid2 by simp
  moreover have "py_round2 (Fin (1490058157962035 / 140737488355328)) = fl 10.59"
  proof -
    have "rhe (1490058157962035 / 140737488355328 * 100) = 1059"
      by (rule rhe_near) simp
    then show ?thesis by simp
  qed
  ultimately show ?thesis by simp
qed

lemma scenario_values:
  "predicted_values order scenario_window = Inr [fl 11, fl 10.45, fl 10.59]"
proof -
  have ne: "scenario_window \<noteq> []"
    by (simp add: scenario_window_def)
  show ?thesis
    using ne scenario_p1 scenario_p2
    by (simp add: predicted_values_def scenario_sorted scenario_last Let_def fl_11 fl_10_45)
qed

text \<open>
  C3. On the window with prices 10.0, 10.0, 12.0, 9.0, 9.5, 11.0, 10.5, 9.8, 10.2, 9.9
  \<open>predict_next_values\<close> appends exactly three rows, with the prices 11.0, 10.45 and
  10.59 (the doubles these literals denote), dated the three days that follow the last
  row of the window.
\<close>

theorem scenario_forecast:
  "predict_next_values order (Some scenario_window) =
     Inr (scenario_window @
       [\<lparr>stock_id = ''ACME'', timestamp = Date 2024 1 11, price = fl 11\<rparr>,
        \<lparr>stock_id = ''ACME'', timestamp = Date 2024 1 12, price = fl 10.45\<rparr>,
        \<lparr>stock_id = ''ACME'', timestamp = Date 2024 1 13, price = fl 10.59\<rparr>])"
proof -
  have "append_predicted [fl 11, fl 10.45, fl 10.59] scenario_window =
     Inr (scenario_window @
       [\<lparr>stock_id = ''ACME'', timestamp = Date 2024 1 11, price = fl 11\<rparr>,
        \<lparr>stock_id = ''ACME'', timestamp = Date 2024 1 12, price = fl 10.45\<rparr>,
        \<lparr>stock_id = ''ACME'', timestamp = Date 2024 1 13, price = fl 10.59\<rparr>])"
    unfolding append_predicted3 scenario_last
    by (simp add: add_one_day_def days_in_month_def)
  then show ?thesis
    by (simp add: predict_next_values_def scenario_values)
qed

end
